theory Spec2Isabelle
  imports Main "HOL-Library.Char_ord" "HOL-Library.List_Lexorder"
begin

section \<open>Data model\<close>

text \<open>
  Modelled from the spec: \<open>core/models.py\<close> (the declarations of \<open>Experiment\<close>, \<open>Tag\<close>
  and \<open>Ingredient\<close>) is not among the sources. An Experiment has an identifier, an owning
  user, a title, a time estimate in minutes, a price (a decimal, kept here in hundredths),
  a link and a description; a Tag or an Ingredient has an identifier, an owning user and a
  name. Users are referred to by their identifier.
\<close>

record Experiment =
  e_id :: nat
  e_user :: nat
  e_title :: string
  e_time_minutes :: int
  e_price :: int
  e_link :: string
  e_description :: string

record attr =
  a_id :: nat
  a_user :: nat
  a_name :: string

text \<open>The two attribute models; the object manager and the related manager are bound to one.\<close>

datatype model = Tag | Ingredient

text \<open>The calls to the object-relational mapper that write, in the order they are issued.\<close>

datatype orm_call =
    ExperimentCreate nat
  | ExperimentSave nat
  | ExperimentDelete nat
  | GetOrCreate model nat string
  | RelatedAdd model nat nat
  | RelatedClear model nat
  | AttrSave model nat
  | AttrDelete model nat

text \<open>
  The database: one table of experiments, and for each attribute model its table, and the
  join table of the many-to-many relation as pairs (experiment id, attribute id). Tables are
  lists in insertion order. Identifiers come from a sequence per table, as an auto-increment
  primary key does. No uniqueness constraint on (owner, name) is declared for attributes.
\<close>

record db =
  experiments :: "Experiment list"
  experiment_seq :: nat
  attrs :: "model \<Rightarrow> attr list"
  attr_seq :: "model \<Rightarrow> nat"
  links :: "model \<Rightarrow> (nat \<times> nat) list"
  calls :: "orm_call list"

datatype error = MultipleObjectsReturned | Http404

record request =
  user :: nat
  query_params :: "(string \<times> string) list"

section \<open>The object-relational mapper, as far as the code calls it\<close>

text \<open>
  The managers and related managers belong to the framework; they are written down here as
  the framework documents them. A call that raises leaves the database as it is at that
  point: the code opens no transaction.
\<close>

text \<open>The rows that \<open>filter(user=u, name=n)\<close> selects.\<close>

definition matching :: "nat \<Rightarrow> string \<Rightarrow> attr list \<Rightarrow> attr list" where
  "matching u n rows = filter (\<lambda>r. a_user r = u \<and> a_name r = n) rows"

text \<open>
  \<open>Model.objects.get_or_create(user=u, name=n)\<close>: the row that matches, or a new row when
  none does; the lookup raises when several rows match.
\<close>

definition objects_get_or_create ::
  "model \<Rightarrow> nat \<Rightarrow> string \<Rightarrow> db \<Rightarrow> (error + attr \<times> bool) \<times> db" where
  "objects_get_or_create m u n d =
     (let d1 = d\<lparr>calls := calls d @ [GetOrCreate m u n]\<rparr> in
      case matching u n (attrs d m) of
        [] \<Rightarrow>
          (let r = \<lparr>a_id = attr_seq d m, a_user = u, a_name = n\<rparr> in
           (Inr (r, True),
            d1\<lparr>attrs := (attrs d)(m := attrs d m @ [r]),
               attr_seq := (attr_seq d)(m := Suc (attr_seq d m))\<rparr>))
      | [r] \<Rightarrow> (Inr (r, False), d1)
      | _ \<Rightarrow> (Inl MultipleObjectsReturned, d1))"

text \<open>\<open>experiment.tags.add(obj)\<close>: inserts the pair into the join table unless it is there.\<close>

definition related_add :: "model \<Rightarrow> nat \<Rightarrow> nat \<Rightarrow> db \<Rightarrow> db" where
  "related_add m eid aid d =
     (let d1 = d\<lparr>calls := calls d @ [RelatedAdd m eid aid]\<rparr> in
      if (eid, aid) \<in> set (links d m) then d1
      else d1\<lparr>links := (links d)(m := links d m @ [(eid, aid)])\<rparr>)"

text \<open>\<open>instance.tags.clear()\<close>: removes the experiment's pairs from the join table only.\<close>

definition related_clear :: "model \<Rightarrow> nat \<Rightarrow> db \<Rightarrow> db" where
  "related_clear m eid d =
     d\<lparr>links := (links d)(m := filter (\<lambda>p. fst p \<noteq> eid) (links d m)),
       calls := calls d @ [RelatedClear m eid]\<rparr>"

text \<open>
  The fields a validated create request carries: the required ones are present after a
  non-partial validation, the optional ones have the model's default, the empty string.
\<close>

record create_data =
  c_title :: string
  c_time_minutes :: int
  c_price :: int
  c_link :: "string option"
  c_description :: "string option"
  c_tags :: "string list option"
  c_ingredients :: "string list option"

definition or_default :: "'a \<Rightarrow> 'a option \<Rightarrow> 'a" where
  "or_default dflt v = (case v of None \<Rightarrow> dflt | Some x \<Rightarrow> x)"

text \<open>\<open>Experiment.objects.create(user=u, **validated_data)\<close>.\<close>

definition Experiment_objects_create :: "nat \<Rightarrow> create_data \<Rightarrow> db \<Rightarrow> Experiment \<times> db" where
  "Experiment_objects_create u vd d =
     (let e = \<lparr>e_id = experiment_seq d, e_user = u, e_title = c_title vd,
               e_time_minutes = c_time_minutes vd, e_price = c_price vd,
               e_link = or_default [] (c_link vd),
               e_description = or_default [] (c_description vd)\<rparr> in
      (e, d\<lparr>experiments := experiments d @ [e],
            experiment_seq := Suc (experiment_seq d),
            calls := calls d @ [ExperimentCreate (e_id e)]\<rparr>))"

text \<open>\<open>instance.save()\<close>: updates the row with the instance's key, or inserts it.\<close>

definition instance_save :: "Experiment \<Rightarrow> db \<Rightarrow> db" where
  "instance_save inst d =
     d\<lparr>experiments :=
         (if e_id inst \<in> e_id ` set (experiments d)
          then map (\<lambda>r. if e_id r = e_id inst then inst else r) (experiments d)
          else experiments d @ [inst]),
       calls := calls d @ [ExperimentSave (e_id inst)]\<rparr>"

section \<open>serializers.py\<close>

text \<open>
  A descriptor is validated by \<open>TagSerializer\<close> or \<open>IngredientSerializer\<close>, whose only writable
  field is \<open>name\<close>: a validated descriptor is its name. A raise of the mapper ends the loop.
\<close>

fun get_or_create_tags :: "request \<Rightarrow> string list \<Rightarrow> Experiment \<Rightarrow> db \<Rightarrow> (error + unit) \<times> db" where
  "get_or_create_tags req [] experiment d = (Inr (), d)"
| "get_or_create_tags req (tag # tags) experiment d =
     (let auth_user = user req in
      case objects_get_or_create Tag auth_user tag d of
        (Inl err, d1) \<Rightarrow> (Inl err, d1)
      | (Inr (tag_obj, created), d1) \<Rightarrow>
          get_or_create_tags req tags experiment
            (related_add Tag (e_id experiment) (a_id tag_obj) d1))"

fun get_or_create_ingredients ::
  "request \<Rightarrow> string list \<Rightarrow> Experiment \<Rightarrow> db \<Rightarrow> (error + unit) \<times> db" where
  "get_or_create_ingredients req [] experiment d = (Inr (), d)"
| "get_or_create_ingredients req (ingredient # ingredients) experiment d =
     (let auth_user = user req in
      case objects_get_or_create Ingredient auth_user ingredient d of
        (Inl err, d1) \<Rightarrow> (Inl err, d1)
      | (Inr (ingredient_obj, create), d1) \<Rightarrow>
          get_or_create_ingredients req ingredients experiment
            (related_add Ingredient (e_id experiment) (a_id ingredient_obj) d1))"

text \<open>
  \<open>ExperimentDetailSerializer.create\<close>. The keyword \<open>user\<close> that \<open>serializer.save\<close> adds to
  the validated data is the argument \<open>save_user\<close>.
\<close>

definition ExperimentDetailSerializer_create ::
  "request \<Rightarrow> nat \<Rightarrow> create_data \<Rightarrow> db \<Rightarrow> (error + Experiment) \<times> db" where
  "ExperimentDetailSerializer_create req save_user validated_data d =
     (let tags = or_default [] (c_tags validated_data);
          ingredients = or_default [] (c_ingredients validated_data);
          (experiment, d1) = Experiment_objects_create save_user validated_data d
      in case get_or_create_tags req tags experiment d1 of
           (Inl err, d2) \<Rightarrow> (Inl err, d2)
         | (Inr _, d2) \<Rightarrow>
             (case get_or_create_ingredients req ingredients experiment d2 of
                (Inl err, d3) \<Rightarrow> (Inl err, d3)
              | (Inr _, d3) \<Rightarrow> (Inr experiment, d3)))"

text \<open>
  The fields a validated update request may carry (\<open>Meta.fields\<close> without the read-only
  \<open>id\<close>); under a partial update each may be absent.
\<close>

record update_data =
  v_title :: "string option"
  v_time_minutes :: "int option"
  v_price :: "int option"
  v_link :: "string option"
  v_description :: "string option"
  v_tags :: "string list option"
  v_ingredients :: "string list option"

text \<open>The loop \<open>for attr, value in validated_data.items(): setattr(instance, attr, value)\<close>.\<close>

definition setattrs :: "update_data \<Rightarrow> Experiment \<Rightarrow> Experiment" where
  "setattrs vd inst =
     inst\<lparr>e_title := or_default (e_title inst) (v_title vd),
          e_time_minutes := or_default (e_time_minutes inst) (v_time_minutes vd),
          e_price := or_default (e_price inst) (v_price vd),
          e_link := or_default (e_link inst) (v_link vd),
          e_description := or_default (e_description inst) (v_description vd)\<rparr>"

definition ExperimentDetailSerializer_update ::
  "request \<Rightarrow> Experiment \<Rightarrow> update_data \<Rightarrow> db \<Rightarrow> (error + Experiment) \<times> db" where
  "ExperimentDetailSerializer_update req instance validated_data d =
     (let tags = v_tags validated_data;
          ingredients = v_ingredients validated_data;
          (r1, d1) = (case tags of
                        None \<Rightarrow> (Inr (), d)
                      | Some ts \<Rightarrow> get_or_create_tags req ts instance
                                     (related_clear Tag (e_id instance) d))
      in case r1 of
           Inl err \<Rightarrow> (Inl err, d1)
         | Inr _ \<Rightarrow>
             (let (r2, d2) =
                    (case ingredients of
                       None \<Rightarrow> (Inr (), d1)
                     | Some is \<Rightarrow> get_or_create_ingredients req is instance
                                    (related_clear Ingredient (e_id instance) d1))
              in case r2 of
                   Inl err \<Rightarrow> (Inl err, d2)
                 | Inr _ \<Rightarrow>
                     (let instance' = setattrs validated_data instance
                      in (Inr instance', instance_save instance' d2))))"

section \<open>views.py and the generic views it inherits\<close>

text \<open>
  \<open>ExperimentViewSet.get_queryset\<close>: \<open>self.queryset\<close> is \<open>Experiment.objects.all()\<close>;
  \<open>order_by('-id')\<close> is an ascending sort by identifier, reversed.
\<close>

definition ExperimentViewSet_get_queryset :: "request \<Rightarrow> db \<Rightarrow> Experiment list" where
  "ExperimentViewSet_get_queryset req d =
     rev (sort_key e_id (filter (\<lambda>r. e_user r = user req) (experiments d)))"

definition ExperimentViewSet_perform_create ::
  "request \<Rightarrow> create_data \<Rightarrow> db \<Rightarrow> (error + Experiment) \<times> db" where
  "ExperimentViewSet_perform_create req validated_data d =
     ExperimentDetailSerializer_create req (user req) validated_data d"

text \<open>
  \<open>BaseExperimentAttrViewSet.get_queryset\<close>: \<open>self.queryset\<close> is \<open>Tag.objects.all()\<close> in
  \<open>TagViewSet\<close> and \<open>Ingredient.objects.all()\<close> in \<open>IngredientViewSet\<close>; the argument \<open>m\<close> says
  which subclass. Names are compared as character lists, lexicographically. The query
  parameters of the request are not read.
\<close>

definition BaseExperimentAttrViewSet_get_queryset :: "model \<Rightarrow> request \<Rightarrow> db \<Rightarrow> attr list" where
  "BaseExperimentAttrViewSet_get_queryset m req d =
     rev (sort_key a_name (filter (\<lambda>r. a_user r = user req) (attrs d m)))"

text \<open>
  The generic views of the framework: \<open>get_object\<close> looks the primary key up in the
  result of \<open>get_queryset\<close> and answers 404 when no row has it.
\<close>

definition get_object :: "('r \<Rightarrow> nat) \<Rightarrow> 'r list \<Rightarrow> nat \<Rightarrow> error + 'r" where
  "get_object pk_of queryset pk =
     (case filter (\<lambda>r. pk_of r = pk) queryset of
        [] \<Rightarrow> Inl Http404
      | [r] \<Rightarrow> Inr r
      | _ \<Rightarrow> Inl MultipleObjectsReturned)"

text \<open>\<open>instance.delete()\<close>: removes the row and its pairs in both join tables.\<close>

definition instance_delete :: "Experiment \<Rightarrow> db \<Rightarrow> db" where
  "instance_delete inst d =
     d\<lparr>experiments := filter (\<lambda>r. e_id r \<noteq> e_id inst) (experiments d),
       links := (\<lambda>m. filter (\<lambda>p. fst p \<noteq> e_id inst) (links d m)),
       calls := calls d @ [ExperimentDelete (e_id inst)]\<rparr>"

text \<open>
  \<open>serializer.save()\<close> and \<open>instance.delete()\<close> of the attribute views: the row with the
  object's key is replaced; the row and its pairs in the join table are removed.
\<close>

definition attr_save :: "model \<Rightarrow> attr \<Rightarrow> db \<Rightarrow> db" where
  "attr_save m obj d =
     d\<lparr>attrs := (attrs d)(m :=
         (if a_id obj \<in> a_id ` set (attrs d m)
          then map (\<lambda>r. if a_id r = a_id obj then obj else r) (attrs d m)
          else attrs d m @ [obj])),
       calls := calls d @ [AttrSave m (a_id obj)]\<rparr>"

definition attr_delete :: "model \<Rightarrow> attr \<Rightarrow> db \<Rightarrow> db" where
  "attr_delete m obj d =
     d\<lparr>attrs := (attrs d)(m := filter (\<lambda>r. a_id r \<noteq> a_id obj) (attrs d m)),
       links := (links d)(m := filter (\<lambda>p. snd p \<noteq> a_id obj) (links d m)),
       calls := calls d @ [AttrDelete m (a_id obj)]\<rparr>"

definition ExperimentViewSet_list :: "request \<Rightarrow> db \<Rightarrow> Experiment list" where
  "ExperimentViewSet_list req d = ExperimentViewSet_get_queryset req d"

definition ExperimentViewSet_retrieve :: "request \<Rightarrow> nat \<Rightarrow> db \<Rightarrow> error + Experiment" where
  "ExperimentViewSet_retrieve req pk d =
     get_object e_id (ExperimentViewSet_get_queryset req d) pk"

text \<open>
  The body of an update request may name a \<open>user\<close>; \<open>user\<close> is not in \<open>Meta.fields\<close>, so
  validation drops it.
\<close>

record update_payload = update_data +
  p_user :: "nat option"

definition ExperimentViewSet_update ::
  "request \<Rightarrow> nat \<Rightarrow> update_payload \<Rightarrow> db \<Rightarrow> (error + Experiment) \<times> db" where
  "ExperimentViewSet_update req pk payload d =
     (case get_object e_id (ExperimentViewSet_get_queryset req d) pk of
        Inl err \<Rightarrow> (Inl err, d)
      | Inr inst \<Rightarrow>
          ExperimentDetailSerializer_update req inst (update_data.truncate payload) d)"

definition ExperimentViewSet_destroy :: "request \<Rightarrow> nat \<Rightarrow> db \<Rightarrow> (error + unit) \<times> db" where
  "ExperimentViewSet_destroy req pk d =
     (case get_object e_id (ExperimentViewSet_get_queryset req d) pk of
        Inl err \<Rightarrow> (Inl err, d)
      | Inr inst \<Rightarrow> (Inr (), instance_delete inst d))"

definition BaseExperimentAttrViewSet_list :: "model \<Rightarrow> request \<Rightarrow> db \<Rightarrow> attr list" where
  "BaseExperimentAttrViewSet_list m req d = BaseExperimentAttrViewSet_get_queryset m req d"

definition BaseExperimentAttrViewSet_update ::
  "model \<Rightarrow> request \<Rightarrow> nat \<Rightarrow> string option \<Rightarrow> db \<Rightarrow> (error + attr) \<times> db" where
  "BaseExperimentAttrViewSet_update m req pk name d =
     (case get_object a_id (BaseExperimentAttrViewSet_get_queryset m req d) pk of
        Inl err \<Rightarrow> (Inl err, d)
      | Inr obj \<Rightarrow>
          (let obj' = obj\<lparr>a_name := or_default (a_name obj) name\<rparr>
           in (Inr obj', attr_save m obj' d)))"

definition BaseExperimentAttrViewSet_destroy ::
  "model \<Rightarrow> request \<Rightarrow> nat \<Rightarrow> db \<Rightarrow> (error + unit) \<times> db" where
  "BaseExperimentAttrViewSet_destroy m req pk d =
     (case get_object a_id (BaseExperimentAttrViewSet_get_queryset m req d) pk of
        Inl err \<Rightarrow> (Inl err, d)
      | Inr obj \<Rightarrow> (Inr (), attr_delete m obj d))"

section \<open>The command that waits for the database\<close>

text \<open>
  What one call of \<open>self.check(databases=['default'])\<close> does: it returns, or raises one of
  the two operational errors, or raises something else. The database is the sequence of
  these outcomes, one per call. The console records what is written and the seconds slept.
\<close>

datatype check_outcome = Returns | Psychopg20pError | OperationalError | OtherException

record console =
  stdout :: "string list"
  slept :: nat

definition unavailable :: "console \<Rightarrow> console" where
  "unavailable c =
     c\<lparr>stdout := stdout c @ [''Databse unvailable, waiting 1 second...''],
       slept := slept c + 1\<rparr>"

text \<open>The \<open>while db_up is False\<close> loop; \<open>i\<close> counts the calls of \<open>check\<close> made so far.\<close>

partial_function (option) wait_loop ::
  "(nat \<Rightarrow> check_outcome) \<Rightarrow> nat \<Rightarrow> console \<Rightarrow> (check_outcome + console) option" where
  "wait_loop check i c =
     (case check i of
        Returns \<Rightarrow> Some (Inr c)
      | Psychopg20pError \<Rightarrow> wait_loop check (Suc i) (unavailable c)
      | OperationalError \<Rightarrow> wait_loop check (Suc i) (unavailable c)
      | OtherException \<Rightarrow> Some (Inl OtherException))"

text \<open>\<open>Command.handle\<close>: \<open>None\<close> is a run that never ends, \<open>Inl\<close> an exception that leaves it.\<close>

definition Command_handle :: "(nat \<Rightarrow> check_outcome) \<Rightarrow> (check_outcome + console) option" where
  "Command_handle check =
     (case wait_loop check 0 \<lparr>stdout = [''wait for database...''], slept = 0\<rparr> of
        None \<Rightarrow> None
      | Some (Inl exn) \<Rightarrow> Some (Inl exn)
      | Some (Inr c) \<Rightarrow> Some (Inr (c\<lparr>stdout := stdout c @ [''Database available'']\<rparr>)))"

text \<open>The exceptions that the \<open>except\<close> clause of the loop names.\<close>

definition op_error :: "check_outcome \<Rightarrow> bool" where
  "op_error x = (x = Psychopg20pError \<or> x = OperationalError)"

text \<open>
  The console after \<open>k\<close> failed checks and a successful one: the opening line, one line
  and one second of sleep per failure, and the closing line.
\<close>

definition console_after :: "nat \<Rightarrow> console" where
  "console_after k =
     \<lparr>stdout = ''wait for database...'' #
                replicate k ''Databse unvailable, waiting 1 second...'' @
                [''Database available''],
      slept = k\<rparr>"

section \<open>Notions used in the statements\<close>

text \<open>
  The two loops of the serializer are one loop, read with the attribute model, the
  requester and the experiment's identifier as parameters.
\<close>

fun reconcile :: "model \<Rightarrow> nat \<Rightarrow> string list \<Rightarrow> nat \<Rightarrow> db \<Rightarrow> (error + unit) \<times> db" where
  "reconcile m u [] eid d = (Inr (), d)"
| "reconcile m u (n # ns) eid d =
     (case objects_get_or_create m u n d of
        (Inl err, d1) \<Rightarrow> (Inl err, d1)
      | (Inr (obj, created), d1) \<Rightarrow> reconcile m u ns eid (related_add m eid (a_id obj) d1))"

text \<open>The loop of the serializer for an attribute model.\<close>

definition get_or_create_attrs ::
  "model \<Rightarrow> request \<Rightarrow> string list \<Rightarrow> Experiment \<Rightarrow> db \<Rightarrow> (error + unit) \<times> db" where
  "get_or_create_attrs m =
     (case m of Tag \<Rightarrow> get_or_create_tags | Ingredient \<Rightarrow> get_or_create_ingredients)"

text \<open>One round of that loop: the lookup and, when it does not raise, the association.\<close>

definition loop_round :: "model \<Rightarrow> nat \<Rightarrow> string \<Rightarrow> nat \<Rightarrow> db \<Rightarrow> db" where
  "loop_round m u n eid d =
     (case objects_get_or_create m u n d of
        (Inl err, d1) \<Rightarrow> d1
      | (Inr (obj, created), d1) \<Rightarrow> related_add m eid (a_id obj) d1)"

text \<open>One stage of the update: the field is absent, or the clear and the loop run.\<close>

definition stage :: "model \<Rightarrow> request \<Rightarrow> Experiment \<Rightarrow> string list option \<Rightarrow> db \<Rightarrow> (error + unit) \<times> db" where
  "stage m req inst field d =
     (case field of
        None \<Rightarrow> (Inr (), d)
      | Some ns \<Rightarrow> reconcile m (user req) ns (e_id inst) (related_clear m (e_id inst) d))"

text \<open>The attributes associated with an experiment: the second components of its pairs.\<close>

definition linked :: "model \<Rightarrow> nat \<Rightarrow> db \<Rightarrow> nat list" where
  "linked m eid d = map snd (filter (\<lambda>p. fst p = eid) (links d m))"

text \<open>
  The requester owns at most one row for each of the names: the condition under which no
  lookup of the loop raises.
\<close>

definition resolvable :: "model \<Rightarrow> nat \<Rightarrow> string list \<Rightarrow> db \<Rightarrow> bool" where
  "resolvable m u ns d = list_all (\<lambda>n. length (matching u n (attrs d m)) \<le> 1) ns"

text \<open>
  Primary keys: identifiers are distinct within a table and below the table's sequence;
  a join table holds a pair once and refers to identifiers below the sequences.
\<close>

definition wf_db :: "db \<Rightarrow> bool" where
  "wf_db d =
     (distinct (map e_id (experiments d)) \<and>
      list_all (\<lambda>r. e_id r < experiment_seq d) (experiments d) \<and>
      list_all (\<lambda>m. distinct (map a_id (attrs d m)) \<and>
                     list_all (\<lambda>r. a_id r < attr_seq d m) (attrs d m) \<and>
                     distinct (links d m) \<and>
                     list_all (\<lambda>p. fst p < experiment_seq d \<and> snd p < attr_seq d m) (links d m))
        [Tag, Ingredient])"

text \<open>The databases that requests to the views lead to, from the database with no rows.\<close>

definition empty_db :: db where
  "empty_db = \<lparr>experiments = [], experiment_seq = 1, attrs = (\<lambda>m. []), attr_seq = (\<lambda>m. 1),
              links = (\<lambda>m. []), calls = []\<rparr>"

inductive reachable :: "db \<Rightarrow> bool" where
  initial: "reachable empty_db"
| create: "reachable d \<Longrightarrow> reachable (snd (ExperimentViewSet_perform_create req cd d))"
| update: "reachable d \<Longrightarrow> reachable (snd (ExperimentViewSet_update req pk payload d))"
| destroy: "reachable d \<Longrightarrow> reachable (snd (ExperimentViewSet_destroy req pk d))"
| attr_update:
    "reachable d \<Longrightarrow> reachable (snd (BaseExperimentAttrViewSet_update m req pk name d))"
| attr_destroy:
    "reachable d \<Longrightarrow> reachable (snd (BaseExperimentAttrViewSet_destroy m req pk d))"

text \<open>The calls the loops issue, and the call that inserts the experiment.\<close>

fun reconciler_call :: "orm_call \<Rightarrow> bool" where
  "reconciler_call (GetOrCreate m u n) = True"
| "reconciler_call (RelatedAdd m eid aid) = True"
| "reconciler_call c = False"

fun persist_call :: "orm_call \<Rightarrow> bool" where
  "persist_call (ExperimentCreate eid) = True"
| "persist_call c = False"

text \<open>A call of a loop that is made for the requester \<open>u\<close> and the experiment \<open>eid\<close>.\<close>

fun call_on :: "nat \<Rightarrow> nat \<Rightarrow> orm_call \<Rightarrow> bool" where
  "call_on u eid (GetOrCreate m u' n) = (u' = u)"
| "call_on u eid (RelatedAdd m eid' aid) = (eid' = eid)"
| "call_on u eid c = False"

text \<open>
  The calls of a loop that does not raise, read off the database \<open>d'\<close> it leaves: for each
  submitted name in turn the lookup, and the association of the experiment \<open>eid\<close> with the
  row that carries the name.
\<close>

definition loop_calls :: "model \<Rightarrow> nat \<Rightarrow> nat \<Rightarrow> db \<Rightarrow> string list \<Rightarrow> orm_call list" where
  "loop_calls m u eid d' ns =
     concat (map (\<lambda>n. [GetOrCreate m u n,
                         RelatedAdd m eid (a_id (hd (matching u n (attrs d' m))))]) ns)"

text \<open>In a sequence of calls, every call of the first kind comes before every call of the second.\<close>

fun all_before :: "(orm_call \<Rightarrow> bool) \<Rightarrow> (orm_call \<Rightarrow> bool) \<Rightarrow> orm_call list \<Rightarrow> bool" where
  "all_before P Q [] = True"
| "all_before P Q (c # cs) = ((Q c \<longrightarrow> \<not> list_ex P cs) \<and> all_before P Q cs)"


section \<open>Example databases and requests\<close>

text \<open>
  User 1 owns experiment 1, the tags Night (associated with it) and BNU, and the
  ingredient Eggs (associated); user 2 owns experiment 2 and a tag BNU of their own.
\<close>

definition db_sample :: db where
  "db_sample =
     \<lparr>experiments =
        [\<lparr>e_id = 1, e_user = 1, e_title = ''Sample'', e_time_minutes = 22, e_price = 522,
          e_link = ''link'', e_description = ''text''\<rparr>,
         \<lparr>e_id = 2, e_user = 2, e_title = ''Other'', e_time_minutes = 5, e_price = 2000,
          e_link = [], e_description = []\<rparr>],
      experiment_seq = 3,
      attrs = (\<lambda>m. case m of
                Tag \<Rightarrow> [\<lparr>a_id = 1, a_user = 1, a_name = ''Night''\<rparr>,
                        \<lparr>a_id = 2, a_user = 1, a_name = ''BNU''\<rparr>,
                        \<lparr>a_id = 3, a_user = 2, a_name = ''BNU''\<rparr>]
              | Ingredient \<Rightarrow> [\<lparr>a_id = 1, a_user = 1, a_name = ''Eggs''\<rparr>]),
      attr_seq = (\<lambda>m. case m of Tag \<Rightarrow> 4 | Ingredient \<Rightarrow> 2),
      links = (\<lambda>m. case m of Tag \<Rightarrow> [(1, 1)] | Ingredient \<Rightarrow> [(1, 1)]),
      calls = []\<rparr>"

definition req1 :: request where
  "req1 = \<lparr>user = 1, query_params = []\<rparr>"

definition req2 :: request where
  "req2 = \<lparr>user = 2, query_params = []\<rparr>"

definition exp1 :: Experiment where
  "exp1 = \<lparr>e_id = 1, e_user = 1, e_title = ''Sample'', e_time_minutes = 22, e_price = 522,
           e_link = ''link'', e_description = ''text''\<rparr>"

text \<open>
  User 1 owns experiment 1 and two tags that are both named a, the second after a rename;
  both are associated with the experiment, and so is the ingredient x.
\<close>

definition db_renamed :: db where
  "db_renamed =
     \<lparr>experiments =
        [\<lparr>e_id = 1, e_user = 1, e_title = ''Sample'', e_time_minutes = 22, e_price = 522,
          e_link = [], e_description = []\<rparr>],
      experiment_seq = 2,
      attrs = (\<lambda>m. case m of
                Tag \<Rightarrow> [\<lparr>a_id = 1, a_user = 1, a_name = ''a''\<rparr>,
                        \<lparr>a_id = 2, a_user = 1, a_name = ''a''\<rparr>]
              | Ingredient \<Rightarrow> [\<lparr>a_id = 1, a_user = 1, a_name = ''x''\<rparr>]),
      attr_seq = (\<lambda>m. case m of Tag \<Rightarrow> 3 | Ingredient \<Rightarrow> 2),
      links = (\<lambda>m. case m of Tag \<Rightarrow> [(1, 1), (1, 2)] | Ingredient \<Rightarrow> [(1, 1)]),
      calls = []\<rparr>"

definition exp_renamed :: Experiment where
  "exp_renamed = \<lparr>e_id = 1, e_user = 1, e_title = ''Sample'', e_time_minutes = 22,
                  e_price = 522, e_link = [], e_description = []\<rparr>"

definition create_a :: create_data where
  "create_a = \<lparr>c_title = ''New'', c_time_minutes = 30, c_price = 3000, c_link = None,
               c_description = None, c_tags = Some [''a''], c_ingredients = None\<rparr>"

definition payload_aa :: update_payload where
  "payload_aa = \<lparr>v_title = None, v_time_minutes = None, v_price = None, v_link = None,
                 v_description = None, v_tags = Some [''a'', ''a''], v_ingredients = None,
                 p_user = None\<rparr>"

definition patch_afternoon :: update_data where
  "patch_afternoon = \<lparr>v_title = None, v_time_minutes = None, v_price = None, v_link = None,
                      v_description = None, v_tags = Some [''Afternoon''],
                      v_ingredients = None\<rparr>"

definition patch_a :: update_data where
  "patch_a = \<lparr>v_title = None, v_time_minutes = None, v_price = None, v_link = None,
              v_description = None, v_tags = Some [''a''], v_ingredients = Some []\<rparr>"

definition patch_clear :: update_data where
  "patch_clear = \<lparr>v_title = None, v_time_minutes = None, v_price = None, v_link = None,
                  v_description = None, v_tags = Some [], v_ingredients = None\<rparr>"

definition payload_title :: update_payload where
  "payload_title = \<lparr>v_title = Some ''New title'', v_time_minutes = None, v_price = None,
                    v_link = None, v_description = None, v_tags = None, v_ingredients = None,
                    p_user = Some 2\<rparr>"

definition create_sample :: create_data where
  "create_sample = \<lparr>c_title = ''Sample'', c_time_minutes = 22, c_price = 522, c_link = None,
                    c_description = None, c_tags = Some [''female'', ''sleep''],
                    c_ingredients = None\<rparr>"

text \<open>
  User 1 owns the tags t1 and t2 and one experiment, with which t1 alone is associated; the
  request asks for the assigned tags only.
\<close>

definition db_filter :: db where
  "db_filter =
     \<lparr>experiments =
        [\<lparr>e_id = 1, e_user = 1, e_title = ''tag iCAN'', e_time_minutes = 5, e_price = 2000,
          e_link = [], e_description = []\<rparr>],
      experiment_seq = 2,
      attrs = (\<lambda>m. case m of
                Tag \<Rightarrow> [\<lparr>a_id = 1, a_user = 1, a_name = ''t1''\<rparr>,
                        \<lparr>a_id = 2, a_user = 1, a_name = ''t2''\<rparr>]
              | Ingredient \<Rightarrow> []),
      attr_seq = (\<lambda>m. case m of Tag \<Rightarrow> 3 | Ingredient \<Rightarrow> 1),
      links = (\<lambda>m. case m of Tag \<Rightarrow> [(1, 1)] | Ingredient \<Rightarrow> []),
      calls = []\<rparr>"

definition req_assigned_only :: request where
  "req_assigned_only = \<lparr>user = 1, query_params = [(''assigned_only'', ''1'')]\<rparr>"

definition create_ab :: create_data where
  "create_ab = \<lparr>c_title = ''Sample'', c_time_minutes = 22, c_price = 522, c_link = None,
                c_description = None, c_tags = Some [''a'', ''b''],
                c_ingredients = Some [''x'']\<rparr>"

section \<open>The get-or-create loop\<close>

lemma get_or_create_tags_reconcile:
  "get_or_create_tags req ns e d = reconcile Tag (user req) ns (e_id e) d"
  by (induction ns arbitrary: d) (auto split: prod.splits sum.splits)

lemma get_or_create_ingredients_reconcile:
  "get_or_create_ingredients req ns e d = reconcile Ingredient (user req) ns (e_id e) d"
  by (induction ns arbitrary: d) (auto split: prod.splits sum.splits)

lemma matching_append [simp]: "matching u n (xs @ ys) = matching u n xs @ matching u n ys"
  by (simp add: matching_def)

lemma matching_Cons:
  "matching u n (r # rs) = (if a_user r = u \<and> a_name r = n then r # matching u n rs else matching u n rs)"
  by (simp add: matching_def)

lemma matching_Nil [simp]: "matching u n [] = []"
  by (simp add: matching_def)

lemma reconcile_Cons:
  "reconcile m u (n # ns) eid d =
     (if length (matching u n (attrs d m)) \<le> 1 then reconcile m u ns eid (loop_round m u n eid d)
      else (Inl MultipleObjectsReturned, loop_round m u n eid d))"
  by (auto simp: loop_round_def objects_get_or_create_def Let_def split: list.splits)

lemma loop_round_frame [simp]:
  "experiments (loop_round m u n eid d) = experiments d"
  "experiment_seq (loop_round m u n eid d) = experiment_seq d"
  "m' \<noteq> m \<Longrightarrow> attrs (loop_round m u n eid d) m' = attrs d m'"
  "m' \<noteq> m \<Longrightarrow> attr_seq (loop_round m u n eid d) m' = attr_seq d m'"
  "m' \<noteq> m \<Longrightarrow> links (loop_round m u n eid d) m' = links d m'"
  by (auto simp: loop_round_def objects_get_or_create_def related_add_def Let_def split: list.splits)

lemma loop_round_attrs:
  "attrs (loop_round m u n eid d) m =
     attrs d m @ (if matching u n (attrs d m) = [] then [\<lparr>a_id = attr_seq d m, a_user = u, a_name = n\<rparr>] else [])"
  by (auto simp: loop_round_def objects_get_or_create_def related_add_def Let_def split: list.splits)

lemma loop_round_attr_seq:
  "attr_seq (loop_round m u n eid d) m =
     (if matching u n (attrs d m) = [] then Suc (attr_seq d m) else attr_seq d m)"
  by (auto simp: loop_round_def objects_get_or_create_def related_add_def Let_def split: list.splits)


lemma loop_round_links:
  "links (loop_round m u n eid d) m =
     (case matching u n (attrs d m) of
        [] \<Rightarrow> (if (eid, attr_seq d m) \<in> set (links d m) then links d m
               else links d m @ [(eid, attr_seq d m)])
      | [r] \<Rightarrow> (if (eid, a_id r) \<in> set (links d m) then links d m
                else links d m @ [(eid, a_id r)])
      | _ \<Rightarrow> links d m)"
  by (auto simp: loop_round_def objects_get_or_create_def related_add_def Let_def split: list.splits)

lemma matching_loop_round:
  "matching u' n' (attrs (loop_round m u n eid d) m) =
     matching u' n' (attrs d m) @
       (if matching u n (attrs d m) = [] \<and> u' = u \<and> n' = n
        then [\<lparr>a_id = attr_seq d m, a_user = u, a_name = n\<rparr>] else [])"
  by (simp add: loop_round_attrs matching_Cons)

lemma resolvable_Cons [simp]:
  "resolvable m u (n # ns) d \<longleftrightarrow>
     length (matching u n (attrs d m)) \<le> 1 \<and> resolvable m u ns d"
  by (simp add: resolvable_def)

lemma resolvable_Nil [simp]: "resolvable m u [] d"
  by (simp add: resolvable_def)

lemma resolvable_loop_round:
  "length (matching u n (attrs d m)) \<le> 1 \<Longrightarrow>
   resolvable m u ns (loop_round m u n eid d) = resolvable m u ns d"
  by (induction ns) (auto simp: matching_loop_round)

declare reconcile.simps(2) [simp del]

lemma reconcile_ok:
  "fst (reconcile m u ns eid d) = Inr () \<longleftrightarrow> resolvable m u ns d"
  by (induction ns arbitrary: d) (auto simp: reconcile_Cons resolvable_loop_round)

lemma reconcile_error:
  "fst (reconcile m u ns eid d) = Inl err \<Longrightarrow> err = MultipleObjectsReturned"
  by (induction ns arbitrary: d) (auto simp: reconcile_Cons split: if_splits)

lemma reconcile_frame [simp]:
  "experiments (snd (reconcile m u ns eid d)) = experiments d"
  "experiment_seq (snd (reconcile m u ns eid d)) = experiment_seq d"
  by (induction ns arbitrary: d) (auto simp: reconcile_Cons)

lemma reconcile_other_model [simp]:
  "m' \<noteq> m \<Longrightarrow> attrs (snd (reconcile m u ns eid d)) m' = attrs d m'"
  "m' \<noteq> m \<Longrightarrow> attr_seq (snd (reconcile m u ns eid d)) m' = attr_seq d m'"
  "m' \<noteq> m \<Longrightarrow> links (snd (reconcile m u ns eid d)) m' = links d m'"
  by (induction ns arbitrary: d) (auto simp: reconcile_Cons)

text \<open>Rows are only appended, and every appended row is the requester's, named as submitted.\<close>

lemma reconcile_attrs:
  "\<exists>news. attrs (snd (reconcile m u ns eid d)) m = attrs d m @ news \<and>
          attr_seq (snd (reconcile m u ns eid d)) m = attr_seq d m + length news \<and>
          map a_id news = [attr_seq d m ..< attr_seq d m + length news] \<and>
          (\<forall>r\<in>set news. a_user r = u \<and> a_name r \<in> set ns \<and> matching u (a_name r) (attrs d m) = [])"
proof (induction ns arbitrary: d)
  case Nil
  show ?case by simp
next
  case (Cons n ns)
  let ?d1 = "loop_round m u n eid d"
  obtain news0 where 0: "attrs ?d1 m = attrs d m @ news0"
    "attr_seq ?d1 m = attr_seq d m + length news0"
    "map a_id news0 = [attr_seq d m ..< attr_seq d m + length news0]"
    "\<forall>r\<in>set news0. a_user r = u \<and> a_name r = n \<and> matching u (a_name r) (attrs d m) = []"
    by (cases "matching u n (attrs d m) = []") (auto simp: loop_round_attrs loop_round_attr_seq)
  show ?case
  proof (cases "length (matching u n (attrs d m)) \<le> 1")
    case False
    then show ?thesis using 0
      by (intro exI [of _ news0]) (auto simp: reconcile_Cons)
  next
    case True
    from Cons.IH [of ?d1] obtain news1 where 1:
      "attrs (snd (reconcile m u ns eid ?d1)) m = attrs ?d1 m @ news1"
      "attr_seq (snd (reconcile m u ns eid ?d1)) m = attr_seq ?d1 m + length news1"
      "map a_id news1 = [attr_seq ?d1 m ..< attr_seq ?d1 m + length news1]"
      "\<forall>r\<in>set news1. a_user r = u \<and> a_name r \<in> set ns \<and> matching u (a_name r) (attrs ?d1 m) = []"
      by blast
    have "map a_id (news0 @ news1) = [attr_seq d m ..< attr_seq d m + length (news0 @ news1)]"
      using 0(2,3) 1(3)
        upt_add_eq_append [of "attr_seq d m" "attr_seq d m + length news0" "length news1"]
      by (simp add: add.assoc)
    moreover have "\<forall>r\<in>set (news0 @ news1). a_user r = u \<and> a_name r \<in> set (n # ns) \<and>
        matching u (a_name r) (attrs d m) = []"
      using 0(1,4) 1(4) by auto
    ultimately show ?thesis using True 0 1
      by (intro exI [of _ "news0 @ news1"]) (simp add: reconcile_Cons)
  qed
qed


lemma reconcile_matching_keep:
  assumes "matching u' n' (attrs d m) \<noteq> [] \<or> u' \<noteq> u \<or> n' \<notin> set ns"
  shows "matching u' n' (attrs (snd (reconcile m u ns eid d)) m) = matching u' n' (attrs d m)"
proof -
  obtain news where news: "attrs (snd (reconcile m u ns eid d)) m = attrs d m @ news"
    "\<forall>r\<in>set news. a_user r = u \<and> a_name r \<in> set ns \<and> matching u (a_name r) (attrs d m) = []"
    using reconcile_attrs [of m u ns eid d] by blast
  have "matching u' n' news = []"
  proof (rule ccontr)
    assume "matching u' n' news \<noteq> []"
    then obtain r where "r \<in> set news" "a_user r = u'" "a_name r = n'"
      by (auto simp: matching_def filter_empty_conv)
    with news(2) assms show False by auto
  qed
  with news(1) show ?thesis by simp
qed

lemma reconcile_links:
  "\<exists>added. links (snd (reconcile m u ns eid d)) m = links d m @ added \<and>
           distinct added \<and>
           (\<forall>p\<in>set added. fst p = eid \<and> p \<notin> set (links d m) \<and>
              (\<exists>r\<in>set (attrs (snd (reconcile m u ns eid d)) m).
                  a_user r = u \<and> a_name r \<in> set ns \<and> a_id r = snd p))"
proof (induction ns arbitrary: d)
  case Nil
  show ?case by simp
next
  case (Cons n ns)
  let ?d1 = "loop_round m u n eid d"
  let ?d2 = "snd (reconcile m u ns eid ?d1)"
  show ?case
  proof (cases "length (matching u n (attrs d m)) \<le> 1")
    case False
    then have "links (snd (reconcile m u (n # ns) eid d)) m = links d m @ []"
      by (auto simp: reconcile_Cons loop_round_links split: list.splits)
    then show ?thesis by (intro exI [of _ "[]"]) simp
  next
    case True
    obtain add0 where 0: "links ?d1 m = links d m @ add0" "distinct add0"
      "\<forall>p\<in>set add0. fst p = eid \<and> p \<notin> set (links d m) \<and>
          (\<exists>r\<in>set (attrs ?d1 m). a_user r = u \<and> a_name r = n \<and> a_id r = snd p)"
    proof (cases "matching u n (attrs d m)")
      case Nil
      show ?thesis
        by (rule that [of "if (eid, attr_seq d m) \<in> set (links d m) then [] else [(eid, attr_seq d m)]"])
          (auto simp: loop_round_links loop_round_attrs Nil)
    next
      case (Cons r rs)
      with True have rs: "rs = []" by simp
      have "r \<in> set (matching u n (attrs d m))" using Cons by simp
      then have r: "r \<in> set (attrs d m)" "a_user r = u" "a_name r = n"
        by (auto simp: matching_def)
      show ?thesis
        by (rule that [of "if (eid, a_id r) \<in> set (links d m) then [] else [(eid, a_id r)]"])
          (use r in \<open>auto simp: loop_round_links loop_round_attrs Cons rs\<close>)
    qed
    from Cons.IH [of ?d1] obtain add1 where 1: "links ?d2 m = links ?d1 m @ add1" "distinct add1"
      "\<forall>p\<in>set add1. fst p = eid \<and> p \<notin> set (links ?d1 m) \<and>
          (\<exists>r\<in>set (attrs ?d2 m). a_user r = u \<and> a_name r \<in> set ns \<and> a_id r = snd p)"
      by blast
    obtain news where news: "attrs ?d2 m = attrs ?d1 m @ news"
      using reconcile_attrs [of m u ns eid ?d1] by blast
    have eq: "snd (reconcile m u (n # ns) eid d) = ?d2"
      using True by (simp add: reconcile_Cons)
    have "links ?d2 m = links d m @ (add0 @ add1)" using 0(1) 1(1) by simp
    moreover have "distinct (add0 @ add1)" using 0(1,2) 1(2,3) by auto
    moreover have "\<forall>p\<in>set (add0 @ add1). fst p = eid \<and> p \<notin> set (links d m) \<and>
          (\<exists>r\<in>set (attrs ?d2 m). a_user r = u \<and> a_name r \<in> set (n # ns) \<and> a_id r = snd p)"
    proof
      fix p assume "p \<in> set (add0 @ add1)"
      then consider "p \<in> set add0" | "p \<in> set add1" by auto
      then show "fst p = eid \<and> p \<notin> set (links d m) \<and>
          (\<exists>r\<in>set (attrs ?d2 m). a_user r = u \<and> a_name r \<in> set (n # ns) \<and> a_id r = snd p)"
      proof cases
        case 1
        with 0(3) news show ?thesis by fastforce
      next
        case 2
        with 1(3) 0(1) show ?thesis by fastforce
      qed
    qed
    ultimately show ?thesis unfolding eq by (intro exI [of _ "add0 @ add1"]) blast
  qed
qed

lemma reconcile_links_subset:
  "set (links d m) \<subseteq> set (links (snd (reconcile m u ns eid d)) m)"
  using reconcile_links [of m u ns eid d] by auto

lemma reconcile_distinct_links:
  "distinct (links d m) \<Longrightarrow> distinct (links (snd (reconcile m u ns eid d)) m)"
  using reconcile_links [of m u ns eid d] by auto

lemma reconcile_other_experiments:
  "filter (\<lambda>p. fst p \<noteq> eid) (links (snd (reconcile m u ns eid d)) m) =
   filter (\<lambda>p. fst p \<noteq> eid) (links d m)"
proof -
  obtain added where "links (snd (reconcile m u ns eid d)) m = links d m @ added"
    "\<forall>p\<in>set added. fst p = eid"
    using reconcile_links [of m u ns eid d] by blast
  then show ?thesis by (simp add: filter_empty_conv)
qed

lemma reconcile_resolved:
  assumes "resolvable m u ns d" "n \<in> set ns"
  shows "\<exists>r. matching u n (attrs (snd (reconcile m u ns eid d)) m) = [r] \<and>
             (eid, a_id r) \<in> set (links (snd (reconcile m u ns eid d)) m)"
  using assms
proof (induction ns arbitrary: d)
  case Nil
  then show ?case by simp
next
  case (Cons n0 ns)
  let ?d1 = "loop_round m u n0 eid d"
  let ?d2 = "snd (reconcile m u ns eid ?d1)"
  from Cons.prems have le: "length (matching u n0 (attrs d m)) \<le> 1" and res: "resolvable m u ns d"
    by simp_all
  have eq: "snd (reconcile m u (n0 # ns) eid d) = ?d2"
    using le by (simp add: reconcile_Cons)
  have res1: "resolvable m u ns ?d1" using le res by (simp add: resolvable_loop_round)
  show ?case
  proof (cases "n \<in> set ns")
    case True
    from Cons.IH [OF res1 True] show ?thesis unfolding eq .
  next
    case False
    with Cons.prems have n: "n = n0" by simp
    have "\<exists>r. matching u n (attrs ?d1 m) = [r] \<and> (eid, a_id r) \<in> set (links ?d1 m)"
    proof (cases "matching u n0 (attrs d m)")
      case Nil
      then show ?thesis by (simp add: n matching_loop_round loop_round_links)
    next
      case (Cons r rs)
      with le have "rs = []" by simp
      with Cons show ?thesis by (simp add: n matching_loop_round loop_round_links)
    qed
    then obtain r where r: "matching u n (attrs ?d1 m) = [r]" "(eid, a_id r) \<in> set (links ?d1 m)"
      by blast
    have "matching u n (attrs ?d2 m) = matching u n (attrs ?d1 m)"
      by (rule reconcile_matching_keep) (simp add: r)
    moreover have "(eid, a_id r) \<in> set (links ?d2 m)"
      using r(2) reconcile_links_subset by blast
    ultimately show ?thesis unfolding eq using r(1) by simp
  qed
qed

lemma loop_round_calls:
  "\<exists>cs. calls (loop_round m u n eid d) = calls d @ cs \<and> list_all reconciler_call cs"
  by (auto simp: loop_round_def objects_get_or_create_def related_add_def Let_def split: list.splits)

lemma reconcile_calls:
  "\<exists>cs. calls (snd (reconcile m u ns eid d)) = calls d @ cs \<and> list_all reconciler_call cs"
proof (induction ns arbitrary: d)
  case Nil
  show ?case by simp
next
  case (Cons n ns)
  let ?d1 = "loop_round m u n eid d"
  obtain cs0 where 0: "calls ?d1 = calls d @ cs0" "list_all reconciler_call cs0"
    using loop_round_calls by blast
  show ?case
  proof (cases "length (matching u n (attrs d m)) \<le> 1")
    case False
    then show ?thesis using 0 by (auto simp: reconcile_Cons)
  next
    case True
    from Cons.IH [of ?d1] obtain cs1 where
      "calls (snd (reconcile m u ns eid ?d1)) = calls ?d1 @ cs1" "list_all reconciler_call cs1"
      by blast
    with 0 True show ?thesis
      by (intro exI [of _ "cs0 @ cs1"]) (simp add: reconcile_Cons)
  qed
qed

text \<open>On success one row is added for each distinct name that had none.\<close>

lemma reconcile_row_count:
  "resolvable m u ns d \<Longrightarrow>
   length (attrs (snd (reconcile m u ns eid d)) m) =
     length (attrs d m) + length (remdups (filter (\<lambda>n. matching u n (attrs d m) = []) ns))"
proof (induction ns arbitrary: d)
  case Nil
  show ?case by simp
next
  case (Cons n ns)
  let ?d1 = "loop_round m u n eid d"
  from Cons.prems have le: "length (matching u n (attrs d m)) \<le> 1" and res: "resolvable m u ns d"
    by simp_all
  have res1: "resolvable m u ns ?d1" using le res by (simp add: resolvable_loop_round)
  have eq: "snd (reconcile m u (n # ns) eid d) = snd (reconcile m u ns eid ?d1)"
    using le by (simp add: reconcile_Cons)
  note IH = Cons.IH [OF res1]
  show ?case
  proof (cases "matching u n (attrs d m) = []")
    case True
    have f: "filter (\<lambda>n'. matching u n' (attrs ?d1 m) = []) ns =
             filter (\<lambda>n'. n' \<noteq> n) (filter (\<lambda>n'. matching u n' (attrs d m) = []) ns)"
      by (induction ns) (auto simp: matching_loop_round True)
    have "length (remdups (n # filter (\<lambda>n'. matching u n' (attrs d m) = []) ns)) =
          Suc (length (remdups (filter (\<lambda>n'. n' \<noteq> n) (filter (\<lambda>n'. matching u n' (attrs d m) = []) ns))))"
      (is "length (remdups (n # ?A)) = Suc (length (remdups (filter _ ?A)))")
    proof -
      have "set (n # ?A) = insert n (set (filter (\<lambda>n'. n' \<noteq> n) ?A))" by auto
      moreover have "n \<notin> set (filter (\<lambda>n'. n' \<noteq> n) ?A)" by simp
      ultimately have "card (set (n # ?A)) = Suc (card (set (filter (\<lambda>n'. n' \<noteq> n) ?A)))"
        by (metis List.finite_set card_insert_disjoint)
      then show ?thesis by (simp only: length_remdups_card_conv)
    qed
    with IH True show ?thesis unfolding eq f by (simp add: loop_round_attrs)
  next
    case False
    have f: "filter (\<lambda>n'. matching u n' (attrs ?d1 m) = []) ns =
             filter (\<lambda>n'. matching u n' (attrs d m) = []) ns"
      by (simp add: matching_loop_round False)
    from IH False show ?thesis unfolding eq f by (simp add: loop_round_attrs)
  qed
qed

lemma reconcile_no_new_rows:
  assumes "\<forall>n\<in>set ns. matching u n (attrs d m) \<noteq> []"
  shows "attrs (snd (reconcile m u ns eid d)) m = attrs d m"
proof -
  obtain news where news: "attrs (snd (reconcile m u ns eid d)) m = attrs d m @ news"
    "\<forall>r\<in>set news. a_user r = u \<and> a_name r \<in> set ns \<and> matching u (a_name r) (attrs d m) = []"
    using reconcile_attrs [of m u ns eid d] by blast
  have "news = []"
  proof (cases news)
    case (Cons r rs)
    with news(2) assms show ?thesis by auto
  qed simp
  with news(1) show ?thesis by simp
qed

lemma count_list_distinct:
  "distinct xs \<Longrightarrow> x \<in> set xs \<Longrightarrow> count_list xs x = 1"
  by (induction xs) auto

lemma get_or_create_attrs_reconcile:
  "get_or_create_attrs m req ns e d = reconcile m (user req) ns (e_id e) d"
  by (cases m)
    (simp_all add: get_or_create_attrs_def get_or_create_tags_reconcile
      get_or_create_ingredients_reconcile)

lemma reconcile_append:
  "reconcile m u (xs @ ys) eid d =
     (case reconcile m u xs eid d of
        (Inl err, d1) \<Rightarrow> (Inl err, d1)
      | (Inr _, d1) \<Rightarrow> reconcile m u ys eid d1)"
  by (induction xs arbitrary: d) (auto simp: reconcile_Cons)

lemma resolvable_append [simp]:
  "resolvable m u (xs @ ys) d \<longleftrightarrow> resolvable m u xs d \<and> resolvable m u ys d"
  by (simp add: resolvable_def)

lemma resolvable_reconcile:
  "resolvable m u xs d \<Longrightarrow>
   resolvable m u ys (snd (reconcile m u xs eid d)) = resolvable m u ys d"
proof (induction xs arbitrary: d)
  case Nil
  show ?case by simp
next
  case (Cons n xs)
  then show ?case by (simp add: reconcile_Cons resolvable_loop_round)
qed

text \<open>The lookup of a name returns the one row that matches it in the end.\<close>

lemma lookup_returns_final_row:
  assumes res: "resolvable m u (pre @ n # post) d"
    and fin: "matching u n (attrs (snd (reconcile m u (pre @ n # post) eid d)) m) = [r]"
  shows "\<exists>created. fst (objects_get_or_create m u n (snd (reconcile m u pre eid d))) = Inr (r, created)"
proof -
  let ?d0 = "snd (reconcile m u pre eid d)"
  let ?d1 = "loop_round m u n eid ?d0"
  from res have rp: "resolvable m u pre d" and rn: "resolvable m u (n # post) d" by simp_all
  have ok: "fst (reconcile m u pre eid d) = Inr ()" using rp by (simp add: reconcile_ok)
  have rn0: "resolvable m u (n # post) ?d0" using rp rn by (simp only: resolvable_reconcile)
  then have le: "length (matching u n (attrs ?d0 m)) \<le> 1" by simp
  have whole: "snd (reconcile m u (pre @ n # post) eid d) = snd (reconcile m u post eid ?d1)"
    using ok le by (cases "reconcile m u pre eid d") (simp add: reconcile_append reconcile_Cons)
  have keep: "matching u n (attrs (snd (reconcile m u post eid ?d1)) m) = matching u n (attrs ?d1 m)"
  proof (rule reconcile_matching_keep)
    show "matching u n (attrs ?d1 m) \<noteq> [] \<or> u \<noteq> u \<or> n \<notin> set post"
      by (simp add: matching_loop_round)
  qed
  with fin whole have m1: "matching u n (attrs ?d1 m) = [r]" by simp
  show ?thesis
  proof (cases "matching u n (attrs ?d0 m)")
    case Nil
    with m1 have "r = \<lparr>a_id = attr_seq ?d0 m, a_user = u, a_name = n\<rparr>"
      by (simp add: matching_loop_round)
    with Nil have "fst (objects_get_or_create m u n ?d0) = Inr (r, True)"
      by (simp add: objects_get_or_create_def Let_def)
    then show ?thesis by (rule exI)
  next
    case (Cons r0 rs)
    with le have rs: "rs = []" by simp
    with Cons m1 have "r = r0" by (simp add: matching_loop_round)
    with Cons rs have "fst (objects_get_or_create m u n ?d0) = Inr (r, False)"
      by (simp add: objects_get_or_create_def Let_def)
    then show ?thesis by (rule exI)
  qed
qed

lemma related_add_twice:
  "links (related_add m eid aid (related_add m eid aid d)) = links (related_add m eid aid d)"
  by (simp add: related_add_def Let_def)

section \<open>The stages of an update\<close>

lemma related_clear_simps [simp]:
  "experiments (related_clear m eid d) = experiments d"
  "experiment_seq (related_clear m eid d) = experiment_seq d"
  "attrs (related_clear m eid d) = attrs d"
  "attr_seq (related_clear m eid d) = attr_seq d"
  "links (related_clear m eid d) m = filter (\<lambda>p. fst p \<noteq> eid) (links d m)"
  "m' \<noteq> m \<Longrightarrow> links (related_clear m eid d) m' = links d m'"
  "calls (related_clear m eid d) = calls d @ [RelatedClear m eid]"
  by (simp_all add: related_clear_def)

lemma instance_save_simps [simp]:
  "attrs (instance_save inst d) = attrs d"
  "attr_seq (instance_save inst d) = attr_seq d"
  "links (instance_save inst d) = links d"
  "experiment_seq (instance_save inst d) = experiment_seq d"
  "calls (instance_save inst d) = calls d @ [ExperimentSave (e_id inst)]"
  by (simp_all add: instance_save_def)

lemma resolvable_cong:
  "attrs d1 m = attrs d2 m \<Longrightarrow> resolvable m u ns d1 = resolvable m u ns d2"
  by (simp add: resolvable_def)

lemma update_stages:
  "ExperimentDetailSerializer_update req inst vd d =
     (case stage Tag req inst (v_tags vd) d of
        (Inl err, d1) \<Rightarrow> (Inl err, d1)
      | (Inr _, d1) \<Rightarrow>
          (case stage Ingredient req inst (v_ingredients vd) d1 of
             (Inl err, d2) \<Rightarrow> (Inl err, d2)
           | (Inr _, d2) \<Rightarrow> (Inr (setattrs vd inst), instance_save (setattrs vd inst) d2)))"
  by (auto simp: ExperimentDetailSerializer_update_def stage_def Let_def
      get_or_create_tags_reconcile get_or_create_ingredients_reconcile
      split: option.splits prod.splits sum.splits)

lemma stage_frame [simp]:
  "experiments (snd (stage m req inst field d)) = experiments d"
  "experiment_seq (snd (stage m req inst field d)) = experiment_seq d"
  "m' \<noteq> m \<Longrightarrow> attrs (snd (stage m req inst field d)) m' = attrs d m'"
  "m' \<noteq> m \<Longrightarrow> attr_seq (snd (stage m req inst field d)) m' = attr_seq d m'"
  "m' \<noteq> m \<Longrightarrow> links (snd (stage m req inst field d)) m' = links d m'"
  by (auto simp: stage_def split: option.splits)

lemma stage_absent [simp]: "stage m req inst None d = (Inr (), d)"
  by (simp add: stage_def)

lemma stage_ok:
  "fst (stage m req inst field d) = Inr () \<longleftrightarrow>
     (case field of None \<Rightarrow> True | Some ns \<Rightarrow> resolvable m (user req) ns d)"
  by (auto simp: stage_def reconcile_ok resolvable_def split: option.splits)

lemma stage_error:
  "fst (stage m req inst field d) = Inl err \<Longrightarrow> err = MultipleObjectsReturned"
  by (auto simp: stage_def split: option.splits dest: reconcile_error)

lemma stage_attrs:
  "\<exists>news. attrs (snd (stage m req inst field d)) m = attrs d m @ news"
proof (cases field)
  case None
  then show ?thesis by simp
next
  case (Some ns)
  then show ?thesis
    using reconcile_attrs [of m "user req" ns "e_id inst" "related_clear m (e_id inst) d"]
    by (auto simp: stage_def)
qed

text \<open>After a stage that ran without a raise, the experiment has exactly the resolved rows.\<close>

lemma stage_linked:
  assumes "resolvable m (user req) ns d"
  shows "set (linked m (e_id inst) (snd (stage m req inst (Some ns) d))) =
           {a_id r | r. r \<in> set (attrs (snd (stage m req inst (Some ns) d)) m) \<and>
                        a_user r = user req \<and> a_name r \<in> set ns}"
    and "distinct (linked m (e_id inst) (snd (stage m req inst (Some ns) d)))"
    and "filter (\<lambda>p. fst p \<noteq> e_id inst) (links (snd (stage m req inst (Some ns) d)) m) =
         filter (\<lambda>p. fst p \<noteq> e_id inst) (links d m)"
proof -
  let ?u = "user req" and ?eid = "e_id inst"
  let ?d0 = "related_clear m ?eid d"
  let ?d' = "snd (reconcile m ?u ns ?eid ?d0)"
  have st: "snd (stage m req inst (Some ns) d) = ?d'" by (simp add: stage_def)
  have res0: "resolvable m ?u ns ?d0" using assms by (simp add: resolvable_def)
  obtain added where added: "links ?d' m = links ?d0 m @ added" "distinct added"
    "\<forall>p\<in>set added. fst p = ?eid \<and> p \<notin> set (links ?d0 m) \<and>
        (\<exists>r\<in>set (attrs ?d' m). a_user r = ?u \<and> a_name r \<in> set ns \<and> a_id r = snd p)"
    using reconcile_links [of m ?u ns ?eid ?d0] by blast
  have l: "filter (\<lambda>p. fst p = ?eid) (links ?d' m) = added"
    using added(1,3) by (simp add: filter_empty_conv filter_id_conv)
  have inj: "inj_on snd (set added)"
    using added(3) by (auto simp: inj_on_def prod_eq_iff)
  show "distinct (linked m ?eid (snd (stage m req inst (Some ns) d)))"
    unfolding st linked_def l using added(2) inj by (simp add: distinct_map)
  show "filter (\<lambda>p. fst p \<noteq> ?eid) (links (snd (stage m req inst (Some ns) d)) m) =
         filter (\<lambda>p. fst p \<noteq> ?eid) (links d m)"
    unfolding st using added(1,3) by (simp add: filter_empty_conv)
  show "set (linked m ?eid (snd (stage m req inst (Some ns) d))) =
           {a_id r | r. r \<in> set (attrs (snd (stage m req inst (Some ns) d)) m) \<and>
                        a_user r = ?u \<and> a_name r \<in> set ns}"
    unfolding st linked_def l
  proof (intro set_eqI iffI)
    fix a assume "a \<in> set (map snd added)"
    then obtain p where "p \<in> set added" "a = snd p" by auto
    with added(3) obtain r where "r \<in> set (attrs ?d' m)" "a_user r = ?u" "a_name r \<in> set ns"
      "a_id r = a" by metis
    then show "a \<in> {a_id r | r. r \<in> set (attrs ?d' m) \<and> a_user r = ?u \<and> a_name r \<in> set ns}"
      by blast
  next
    fix a assume "a \<in> {a_id r | r. r \<in> set (attrs ?d' m) \<and> a_user r = ?u \<and> a_name r \<in> set ns}"
    then obtain r where r: "r \<in> set (attrs ?d' m)" "a_user r = ?u" "a_name r \<in> set ns" "a = a_id r"
      by blast
    from reconcile_resolved [OF res0 r(3), of ?eid] obtain r' where
      r': "matching ?u (a_name r) (attrs ?d' m) = [r']" "(?eid, a_id r') \<in> set (links ?d' m)"
      by blast
    have "r \<in> set (matching ?u (a_name r) (attrs ?d' m))" using r(1,2) by (simp add: matching_def)
    with r'(1) have "r = r'" by simp
    with r'(2) have "(?eid, a) \<in> set (filter (\<lambda>p. fst p = ?eid) (links ?d' m))"
      using r(4) by simp
    then show "a \<in> set (map snd added)" unfolding l by force
  qed
qed


lemma update_result:
  assumes "ExperimentDetailSerializer_update req inst vd d = (res, d')"
  shows "(\<exists>i. res = Inr i) \<longleftrightarrow>
           fst (stage Tag req inst (v_tags vd) d) = Inr () \<and>
           fst (stage Ingredient req inst (v_ingredients vd)
                  (snd (stage Tag req inst (v_tags vd) d))) = Inr ()"
    and "(\<forall>i. res \<noteq> Inr i) \<Longrightarrow> res = Inl MultipleObjectsReturned"
    and "res = Inr i \<Longrightarrow> i = setattrs vd inst"
  using assms stage_error [of Tag req inst "v_tags vd" d]
    stage_error [of Ingredient req inst "v_ingredients vd" "snd (stage Tag req inst (v_tags vd) d)"]
  by (auto simp: update_stages split: prod.splits sum.splits)

lemma update_tag_tables:
  assumes "ExperimentDetailSerializer_update req inst vd d = (res, d')"
  shows "links d' Tag = links (snd (stage Tag req inst (v_tags vd) d)) Tag"
    and "attrs d' Tag = attrs (snd (stage Tag req inst (v_tags vd) d)) Tag"
proof -
  let ?d1 = "snd (stage Tag req inst (v_tags vd) d)"
  let ?d2 = "snd (stage Ingredient req inst (v_ingredients vd) ?d1)"
  have "d' = ?d1 \<or> d' = ?d2 \<or> d' = instance_save (setattrs vd inst) ?d2"
    using assms by (auto simp: update_stages split: prod.splits sum.splits)
  then show "links d' Tag = links ?d1 Tag" and "attrs d' Tag = attrs ?d1 Tag" by auto
qed

lemma stage_frameD:
  assumes "stage m req inst field d = (r, d1)"
  shows "experiments d1 = experiments d"
    and "experiment_seq d1 = experiment_seq d"
    and "m' \<noteq> m \<Longrightarrow> attrs d1 m' = attrs d m'"
    and "m' \<noteq> m \<Longrightarrow> links d1 m' = links d m'"
  using stage_frame [where m = m and req = req and inst = inst and field = field and d = d] assms
  by simp_all

lemma update_ingredient_tables:
  assumes run: "ExperimentDetailSerializer_update req inst vd d = (res, d')"
  shows "fst (stage Tag req inst (v_tags vd) d) = Inr () \<Longrightarrow>
         links d' Ingredient =
           links (snd (stage Ingredient req inst (v_ingredients vd)
                    (snd (stage Tag req inst (v_tags vd) d)))) Ingredient \<and>
         attrs d' Ingredient =
           attrs (snd (stage Ingredient req inst (v_ingredients vd)
                    (snd (stage Tag req inst (v_tags vd) d)))) Ingredient"
    and "fst (stage Tag req inst (v_tags vd) d) \<noteq> Inr () \<Longrightarrow>
         links d' Ingredient = links d Ingredient \<and> attrs d' Ingredient = attrs d Ingredient"
proof -
  obtain r1 d1 where s1: "stage Tag req inst (v_tags vd) d = (r1, d1)" by force
  obtain r2 d2 where s2: "stage Ingredient req inst (v_ingredients vd) d1 = (r2, d2)" by force
  note f1 = stage_frameD [OF s1]
  show "links d' Ingredient =
           links (snd (stage Ingredient req inst (v_ingredients vd)
                    (snd (stage Tag req inst (v_tags vd) d)))) Ingredient \<and>
         attrs d' Ingredient =
           attrs (snd (stage Ingredient req inst (v_ingredients vd)
                    (snd (stage Tag req inst (v_tags vd) d)))) Ingredient"
    if "fst (stage Tag req inst (v_tags vd) d) = Inr ()"
    using that run s1 s2 by (cases r2) (auto simp: update_stages)
  show "links d' Ingredient = links d Ingredient \<and> attrs d' Ingredient = attrs d Ingredient"
    if "fst (stage Tag req inst (v_tags vd) d) \<noteq> Inr ()"
    using that run s1 f1(3,4) [of Ingredient] by (cases r1) (auto simp: update_stages)
qed

lemma update_experiments:
  assumes run: "ExperimentDetailSerializer_update req inst vd d = (res, d')"
  shows "experiments d' =
     (if \<exists>i. res = Inr i then experiments (instance_save (setattrs vd inst) d) else experiments d)"
proof -
  obtain r1 d1 where s1: "stage Tag req inst (v_tags vd) d = (r1, d1)" by force
  obtain r2 d2 where s2: "stage Ingredient req inst (v_ingredients vd) d1 = (r2, d2)" by force
  have e: "experiments d1 = experiments d" "experiments d2 = experiments d"
    using stage_frameD(1) [OF s1] stage_frameD(1) [OF s2] by simp_all
  show ?thesis
    using run s1 s2 e by (cases r1; cases r2) (auto simp: update_stages instance_save_def)
qed

lemma update_attrs_prefix:
  assumes run: "ExperimentDetailSerializer_update req inst vd d = (res, d')"
  shows "\<exists>news. attrs d' m = attrs d m @ news"
proof (cases m)
  case Tag
  have "attrs d' Tag = attrs (snd (stage Tag req inst (v_tags vd) d)) Tag"
    by (rule update_tag_tables(2) [OF run])
  then show ?thesis using stage_attrs [of Tag req inst "v_tags vd" d] Tag by simp
next
  case Ingredient
  let ?d1 = "snd (stage Tag req inst (v_tags vd) d)"
  show ?thesis
  proof (cases "fst (stage Tag req inst (v_tags vd) d) = Inr ()")
    case True
    from update_ingredient_tables(1) [OF run True]
    have "attrs d' Ingredient = attrs (snd (stage Ingredient req inst (v_ingredients vd) ?d1)) Ingredient"
      by simp
    moreover have "attrs ?d1 Ingredient = attrs d Ingredient" by simp
    ultimately show ?thesis
      using stage_attrs [of Ingredient req inst "v_ingredients vd" ?d1] Ingredient by simp
  next
    case False
    from update_ingredient_tables(2) [OF run False] show ?thesis using Ingredient by simp
  qed
qed

lemma get_object_Inr:
  "get_object pk_of queryset pk = Inr r \<Longrightarrow> r \<in> set queryset \<and> pk_of r = pk"
proof -
  assume a: "get_object pk_of queryset pk = Inr r"
  then have "filter (\<lambda>r. pk_of r = pk) queryset = [r]"
    by (auto simp: get_object_def split: list.splits)
  then have "r \<in> set (filter (\<lambda>r. pk_of r = pk) queryset)" by simp
  then show ?thesis by simp
qed

lemma set_get_queryset [simp]:
  "set (ExperimentViewSet_get_queryset req d) = {r \<in> set (experiments d). e_user r = user req}"
  by (auto simp: ExperimentViewSet_get_queryset_def)

lemma set_attr_get_queryset [simp]:
  "set (BaseExperimentAttrViewSet_get_queryset m req d) =
     {r \<in> set (attrs d m). a_user r = user req}"
  by (auto simp: BaseExperimentAttrViewSet_get_queryset_def)

lemma map_replace_by_key:
  assumes "inst \<in> set xs" "distinct (map e_id xs)" "g new = g inst"
  shows "map g (map (\<lambda>r. if e_id r = e_id inst then new else r) xs) = map g xs"
proof -
  have "g (if e_id r = e_id inst then new else r) = g r" if "r \<in> set xs" for r
  proof (cases "e_id r = e_id inst")
    case True
    with assms(1,2) that have "r = inst" by (meson distinct_map inj_onD)
    with assms(3) True show ?thesis by simp
  qed simp
  then show ?thesis by simp
qed

lemma filter_replace_by_key:
  "filter (\<lambda>r. e_id r \<noteq> k) (map (\<lambda>r. if e_id r = k then new else r) xs) =
   filter (\<lambda>r. e_id r \<noteq> k) xs" if "e_id new = k"
  using that by (induction xs) auto

lemma setattrs_simps [simp]:
  "e_id (setattrs vd inst) = e_id inst"
  "e_user (setattrs vd inst) = e_user inst"
  "e_title (setattrs vd inst) = or_default (e_title inst) (v_title vd)"
  "e_time_minutes (setattrs vd inst) = or_default (e_time_minutes inst) (v_time_minutes vd)"
  "e_price (setattrs vd inst) = or_default (e_price inst) (v_price vd)"
  "e_link (setattrs vd inst) = or_default (e_link inst) (v_link vd)"
  "e_description (setattrs vd inst) = or_default (e_description inst) (v_description vd)"
  by (simp_all add: setattrs_def)

lemma or_default_simps [simp]:
  "or_default x None = x" "or_default x (Some y) = y"
  by (simp_all add: or_default_def)

text \<open>What an update request does to the table of experiments.\<close>

lemma view_update_experiments:
  "experiments (snd (ExperimentViewSet_update req pk payload d)) = experiments d \<or>
   (\<exists>inst. inst \<in> set (experiments d) \<and> e_id inst = pk \<and> e_user inst = user req \<and>
      fst (ExperimentViewSet_update req pk payload d) =
        Inr (setattrs (update_data.truncate payload) inst) \<and>
      experiments (snd (ExperimentViewSet_update req pk payload d)) =
        map (\<lambda>r. if e_id r = pk then setattrs (update_data.truncate payload) inst else r)
          (experiments d))"
proof (cases "get_object e_id (ExperimentViewSet_get_queryset req d) pk")
  case (Inl err)
  then show ?thesis by (simp add: ExperimentViewSet_update_def)
next
  case (Inr inst)
  let ?vd = "update_data.truncate payload"
  let ?run = "ExperimentDetailSerializer_update req inst ?vd d"
  from get_object_Inr [OF Inr] have inst: "inst \<in> set (experiments d)" "e_user inst = user req"
    "e_id inst = pk" by simp_all
  have v: "ExperimentViewSet_update req pk payload d = ?run"
    using Inr by (simp add: ExperimentViewSet_update_def)
  have run: "?run = (fst ?run, snd ?run)" by simp
  note e = update_experiments [OF run]
  show ?thesis
  proof (cases "\<exists>i. fst ?run = Inr i")
    case False
    with e show ?thesis unfolding v by simp
  next
    case True
    then obtain i where i: "fst ?run = Inr i" by blast
    with update_result(3) [OF run] have "fst ?run = Inr (setattrs ?vd inst)" by simp
    moreover have "experiments (snd ?run) =
        map (\<lambda>r. if e_id r = pk then setattrs ?vd inst else r) (experiments d)"
      using e True inst by (auto simp: instance_save_def)
    ultimately show ?thesis unfolding v using inst by blast
  qed
qed

lemma create_stages:
  "ExperimentDetailSerializer_create req su vd d =
     (let e = fst (Experiment_objects_create su vd d);
          d1 = snd (Experiment_objects_create su vd d);
          t = reconcile Tag (user req) (or_default [] (c_tags vd)) (e_id e) d1;
          i = reconcile Ingredient (user req) (or_default [] (c_ingredients vd)) (e_id e) (snd t)
      in case fst t of
           Inl err \<Rightarrow> (Inl err, snd t)
         | Inr _ \<Rightarrow> (case fst i of Inl err \<Rightarrow> (Inl err, snd i) | Inr _ \<Rightarrow> (Inr e, snd i)))"
  by (auto simp: ExperimentDetailSerializer_create_def Let_def
      get_or_create_tags_reconcile get_or_create_ingredients_reconcile
      split: prod.splits sum.splits)

lemma Experiment_objects_create_simps [simp]:
  "experiments (snd (Experiment_objects_create su vd d)) =
     experiments d @ [fst (Experiment_objects_create su vd d)]"
  "e_user (fst (Experiment_objects_create su vd d)) = su"
  "e_id (fst (Experiment_objects_create su vd d)) = experiment_seq d"
  "experiment_seq (snd (Experiment_objects_create su vd d)) = Suc (experiment_seq d)"
  "attrs (snd (Experiment_objects_create su vd d)) = attrs d"
  "attr_seq (snd (Experiment_objects_create su vd d)) = attr_seq d"
  "links (snd (Experiment_objects_create su vd d)) = links d"
  "calls (snd (Experiment_objects_create su vd d)) = calls d @ [ExperimentCreate (experiment_seq d)]"
  by (simp_all add: Experiment_objects_create_def Let_def)

lemma create_experiments:
  "experiments (snd (ExperimentDetailSerializer_create req su vd d)) =
     experiments d @ [fst (Experiment_objects_create su vd d)]"
  "fst (ExperimentDetailSerializer_create req su vd d) = Inr e' \<Longrightarrow>
     e' = fst (Experiment_objects_create su vd d)"
  by (auto simp: create_stages Let_def split: sum.splits)

lemma truncate_simps [simp]:
  "v_title (update_data.truncate p) = v_title p"
  "v_time_minutes (update_data.truncate p) = v_time_minutes p"
  "v_price (update_data.truncate p) = v_price p"
  "v_link (update_data.truncate p) = v_link p"
  "v_description (update_data.truncate p) = v_description p"
  "v_tags (update_data.truncate p) = v_tags p"
  "v_ingredients (update_data.truncate p) = v_ingredients p"
  by (simp_all add: update_data.truncate_def)

lemma truncate_p_user [simp]:
  "update_data.truncate (p\<lparr>p_user := x\<rparr>) = update_data.truncate (p :: update_payload)"
  by (simp add: update_data.truncate_def)

lemma reconciler_not_persist: "reconciler_call c \<Longrightarrow> \<not> persist_call c"
  by (cases c) simp_all

lemma all_before_persist_reconciler:
  "list_all reconciler_call cs \<Longrightarrow> all_before persist_call reconciler_call cs"
  by (induction cs) (auto simp: list_ex_iff list_all_iff dest: reconciler_not_persist)

lemma not_all_before_reconciler_persist:
  "cs \<noteq> [] \<Longrightarrow> list_all reconciler_call cs \<Longrightarrow>
   \<not> all_before reconciler_call persist_call (ExperimentCreate e # cs)"
  by (cases cs) (auto simp: list_ex_iff)

lemma reconcile_calls_nonempty:
  "ns \<noteq> [] \<Longrightarrow> calls (snd (reconcile m u ns eid d)) \<noteq> calls d"
proof (cases ns)
  case (Cons n ns')
  let ?d1 = "loop_round m u n eid d"
  have 1: "\<exists>cs. calls ?d1 = calls d @ GetOrCreate m u n # cs"
    by (auto simp: loop_round_def objects_get_or_create_def related_add_def Let_def
        split: list.splits)
  obtain cs' where 2: "calls (snd (reconcile m u ns' eid ?d1)) = calls ?d1 @ cs'"
    using reconcile_calls [of m u ns' eid ?d1] by blast
  show ?thesis using 1 2 Cons by (auto simp: reconcile_Cons)
qed simp

lemma get_object_404:
  "(\<And>r. r \<in> set queryset \<Longrightarrow> pk_of r \<noteq> pk) \<Longrightarrow> get_object pk_of queryset pk = Inl Http404"
  by (simp add: get_object_def filter_empty_conv [THEN iffD2])

lemma insort_key_snoc:
  "f y \<le> f x \<Longrightarrow> insort_key f y (zs @ [x]) = insort_key f y zs @ [x]"
  by (induction zs) auto

lemma sort_key_snoc:
  "(\<And>y. y \<in> set ys \<Longrightarrow> f y \<le> f x) \<Longrightarrow> sort_key f (ys @ [x]) = sort_key f ys @ [x]"
proof (induction ys)
  case Nil
  show ?case by simp
next
  case (Cons y ys)
  then have "sort_key f (ys @ [x]) = sort_key f ys @ [x]" by simp
  moreover have "f y \<le> f x" using Cons.prems by simp
  ultimately show ?case by (simp add: insort_key_snoc)
qed

lemma sorted_wrt_rev_sort_key:
  "sorted_wrt (\<lambda>a b. f b \<le> f a) (rev (sort_key f xs))"
proof -
  have "sorted (map f (sort_key f xs))" by simp
  then have "sorted_wrt (\<lambda>a b. f a \<le> f b) (sort_key f xs)" by (simp only: sorted_map)
  then show ?thesis by (simp add: sorted_wrt_rev)
qed

lemma distinct_key_eq:
  "distinct (map f xs) \<Longrightarrow> x \<in> set xs \<Longrightarrow> y \<in> set xs \<Longrightarrow> f x = f y \<Longrightarrow> x = y"
  by (auto simp: distinct_map dest: inj_onD)

lemma instance_delete_simps [simp]:
  "attrs (instance_delete inst d) = attrs d"
  "experiments (instance_delete inst d) = filter (\<lambda>r. e_id r \<noteq> e_id inst) (experiments d)"
  by (simp_all add: instance_delete_def)

lemma call_on_reconciler: "call_on u eid c \<Longrightarrow> reconciler_call c"
  by (cases c) simp_all

lemma loop_round_calls_on:
  "\<exists>cs. calls (loop_round m u n eid d) = calls d @ cs \<and> list_all (call_on u eid) cs"
  by (auto simp: loop_round_def objects_get_or_create_def related_add_def Let_def split: list.splits)

lemma reconcile_calls_on:
  "\<exists>cs. calls (snd (reconcile m u ns eid d)) = calls d @ cs \<and> list_all (call_on u eid) cs"
proof (induction ns arbitrary: d)
  case Nil
  show ?case by simp
next
  case (Cons n ns)
  let ?d1 = "loop_round m u n eid d"
  obtain cs0 where 0: "calls ?d1 = calls d @ cs0" "list_all (call_on u eid) cs0"
    using loop_round_calls_on by blast
  show ?case
  proof (cases "length (matching u n (attrs d m)) \<le> 1")
    case False
    then show ?thesis using 0 by (auto simp: reconcile_Cons)
  next
    case True
    from Cons.IH [of ?d1] obtain cs1 where
      "calls (snd (reconcile m u ns eid ?d1)) = calls ?d1 @ cs1" "list_all (call_on u eid) cs1"
      by blast
    with 0 True show ?thesis
      by (intro exI [of _ "cs0 @ cs1"]) (simp add: reconcile_Cons)
  qed
qed

lemma loop_round_calls_exact:
  assumes "length (matching u n (attrs d m)) \<le> 1"
  shows "calls (loop_round m u n eid d) =
     calls d @ [GetOrCreate m u n,
                RelatedAdd m eid (a_id (hd (matching u n (attrs (loop_round m u n eid d) m))))]"
proof (cases "matching u n (attrs d m)")
  case Nil
  then show ?thesis
    by (simp add: matching_loop_round)
      (simp add: loop_round_def objects_get_or_create_def related_add_def Let_def)
next
  case (Cons r rs)
  with assms have rs: "rs = []" by simp
  with Cons show ?thesis
    by (simp add: matching_loop_round)
      (simp add: loop_round_def objects_get_or_create_def related_add_def Let_def)
qed

lemma loop_calls_simps [simp]:
  "loop_calls m u eid d' [] = []"
  "loop_calls m u eid d' (n # ns) =
     GetOrCreate m u n # RelatedAdd m eid (a_id (hd (matching u n (attrs d' m)))) #
     loop_calls m u eid d' ns"
  by (simp_all add: loop_calls_def)

lemma loop_calls_cong:
  "attrs d1 m = attrs d2 m \<Longrightarrow> loop_calls m u eid d1 ns = loop_calls m u eid d2 ns"
  by (simp add: loop_calls_def)

lemma reconcile_calls_exact:
  "resolvable m u ns d \<Longrightarrow>
   calls (snd (reconcile m u ns eid d)) =
     calls d @ loop_calls m u eid (snd (reconcile m u ns eid d)) ns"
proof (induction ns arbitrary: d)
  case Nil
  show ?case by simp
next
  case (Cons n ns)
  let ?d1 = "loop_round m u n eid d"
  let ?d' = "snd (reconcile m u ns eid ?d1)"
  from Cons.prems have le: "length (matching u n (attrs d m)) \<le> 1" and res: "resolvable m u ns d"
    by simp_all
  have res1: "resolvable m u ns ?d1" using le res by (simp add: resolvable_loop_round)
  have eq: "snd (reconcile m u (n # ns) eid d) = ?d'" using le by (simp add: reconcile_Cons)
  have ne: "matching u n (attrs ?d1 m) \<noteq> []" by (simp add: matching_loop_round)
  have keep: "matching u n (attrs ?d' m) = matching u n (attrs ?d1 m)"
    by (rule reconcile_matching_keep) (simp add: ne)
  have "calls ?d' = calls ?d1 @ loop_calls m u eid ?d' ns" using res1 by (rule Cons.IH)
  also have "calls ?d1 = calls d @ [GetOrCreate m u n,
                RelatedAdd m eid (a_id (hd (matching u n (attrs ?d' m))))]"
    unfolding keep using le by (rule loop_round_calls_exact)
  finally show ?case unfolding eq by simp
qed

section \<open>Primary keys are kept by every request\<close>

lemma wf_db_iff:
  "wf_db d \<longleftrightarrow>
     distinct (map e_id (experiments d)) \<and>
     (\<forall>r\<in>set (experiments d). e_id r < experiment_seq d) \<and>
     (\<forall>m. distinct (map a_id (attrs d m)) \<and>
          (\<forall>r\<in>set (attrs d m). a_id r < attr_seq d m) \<and>
          distinct (links d m) \<and>
          (\<forall>p\<in>set (links d m). fst p < experiment_seq d \<and> snd p < attr_seq d m))"
proof -
  have all: "(\<forall>m. P m) \<longleftrightarrow> P Tag \<and> P Ingredient" for P
  proof
    assume "P Tag \<and> P Ingredient"
    then show "\<forall>m. P m" by (auto intro: model.induct)
  qed simp
  show ?thesis
    unfolding wf_db_def all [where P = "\<lambda>m. distinct (map a_id (attrs d m)) \<and>
          (\<forall>r\<in>set (attrs d m). a_id r < attr_seq d m) \<and>
          distinct (links d m) \<and>
          (\<forall>p\<in>set (links d m). fst p < experiment_seq d \<and> snd p < attr_seq d m)"]
    by (simp add: list_all_iff)
qed

lemma wf_empty_db: "wf_db empty_db"
  by (simp add: wf_db_iff empty_db_def)

text \<open>The loop keeps the keys of its attribute model distinct and below the sequence.\<close>

lemma reconcile_keeps_keys:
  assumes a: "distinct (map a_id (attrs d m))" "\<forall>r\<in>set (attrs d m). a_id r < attr_seq d m"
    and l: "distinct (links d m)"
      "\<forall>p\<in>set (links d m). fst p < experiment_seq d \<and> snd p < attr_seq d m"
    and e: "eid < experiment_seq d"
  shows "distinct (map a_id (attrs (snd (reconcile m u ns eid d)) m))"
    and "\<forall>r\<in>set (attrs (snd (reconcile m u ns eid d)) m).
            a_id r < attr_seq (snd (reconcile m u ns eid d)) m"
    and "distinct (links (snd (reconcile m u ns eid d)) m)"
    and "\<forall>p\<in>set (links (snd (reconcile m u ns eid d)) m).
            fst p < experiment_seq d \<and> snd p < attr_seq (snd (reconcile m u ns eid d)) m"
proof -
  let ?d' = "snd (reconcile m u ns eid d)"
  obtain news where news: "attrs ?d' m = attrs d m @ news"
    "attr_seq ?d' m = attr_seq d m + length news"
    "map a_id news = [attr_seq d m ..< attr_seq d m + length news]"
    using reconcile_attrs [of m u ns eid d] by blast
  have new_ids: "set (map a_id news) = {attr_seq d m ..< attr_seq d m + length news}"
    unfolding news(3) by simp
  have "set (map a_id (attrs d m)) \<inter> set (map a_id news) = {}"
    unfolding new_ids using a(2) by fastforce
  moreover have "distinct (map a_id news)" unfolding news(3) by simp
  ultimately show 1: "distinct (map a_id (attrs ?d' m))"
    unfolding news(1) using a(1) by simp
  show below: "\<forall>r\<in>set (attrs ?d' m). a_id r < attr_seq ?d' m"
  proof
    fix r assume "r \<in> set (attrs ?d' m)"
    then consider "r \<in> set (attrs d m)" | "r \<in> set news" unfolding news(1) by auto
    then show "a_id r < attr_seq ?d' m"
    proof cases
      case 1
      with a(2) show ?thesis by (simp add: news(2) trans_less_add1)
    next
      case 2
      then have "a_id r \<in> set (map a_id news)" by simp
      then show ?thesis unfolding new_ids news(2) by simp
    qed
  qed
  show "distinct (links ?d' m)" using l(1) by (rule reconcile_distinct_links)
  obtain added where added: "links ?d' m = links d m @ added"
    "\<forall>p\<in>set added. fst p = eid \<and> (\<exists>r\<in>set (attrs ?d' m). a_id r = snd p)"
    using reconcile_links [of m u ns eid d] by blast
  show "\<forall>p\<in>set (links ?d' m). fst p < experiment_seq d \<and> snd p < attr_seq ?d' m"
  proof
    fix p assume "p \<in> set (links ?d' m)"
    then consider "p \<in> set (links d m)" | "p \<in> set added" unfolding added(1) by auto
    then show "fst p < experiment_seq d \<and> snd p < attr_seq ?d' m"
    proof cases
      case 1
      with l(2) show ?thesis by (simp add: news(2) trans_less_add1)
    next
      case 2
      with added(2) obtain r where "fst p = eid" "r \<in> set (attrs ?d' m)" "a_id r = snd p"
        by blast
      with below e show ?thesis by auto
    qed
  qed
qed

lemma wf_reconcile:
  assumes "wf_db d" "eid < experiment_seq d"
  shows "wf_db (snd (reconcile m u ns eid d))"
proof -
  let ?d' = "snd (reconcile m u ns eid d)"
  from assms(1) have w: "distinct (map e_id (experiments d))"
    "\<forall>r\<in>set (experiments d). e_id r < experiment_seq d"
    "\<And>m. distinct (map a_id (attrs d m))"
    "\<And>m. \<forall>r\<in>set (attrs d m). a_id r < attr_seq d m"
    "\<And>m. distinct (links d m)"
    "\<And>m. \<forall>p\<in>set (links d m). fst p < experiment_seq d \<and> snd p < attr_seq d m"
    by (simp_all add: wf_db_iff)
  note k = reconcile_keeps_keys [OF w(3) w(4) w(5) w(6) assms(2), of m u ns]
  have "distinct (map a_id (attrs ?d' m')) \<and>
          (\<forall>r\<in>set (attrs ?d' m'). a_id r < attr_seq ?d' m') \<and>
          distinct (links ?d' m') \<and>
          (\<forall>p\<in>set (links ?d' m'). fst p < experiment_seq ?d' \<and> snd p < attr_seq ?d' m')" for m'
  proof (cases "m' = m")
    case True
    with k show ?thesis by simp
  next
    case False
    with w(3-6) [of m'] show ?thesis by simp
  qed
  with w(1,2) show ?thesis by (simp add: wf_db_iff)
qed

lemma wf_related_clear:
  assumes "wf_db d"
  shows "wf_db (related_clear m eid d)"
proof -
  from assms have w: "distinct (map e_id (experiments d))"
    "\<forall>r\<in>set (experiments d). e_id r < experiment_seq d"
    "\<And>m. distinct (map a_id (attrs d m))"
    "\<And>m. \<forall>r\<in>set (attrs d m). a_id r < attr_seq d m"
    "\<And>m. distinct (links d m)"
    "\<And>m. \<forall>p\<in>set (links d m). fst p < experiment_seq d \<and> snd p < attr_seq d m"
    by (simp_all add: wf_db_iff)
  have "distinct (links (related_clear m eid d) m') \<and>
      (\<forall>p\<in>set (links (related_clear m eid d) m').
          fst p < experiment_seq d \<and> snd p < attr_seq d m')" for m'
    using w(5,6) [of m'] by (cases "m' = m") simp_all
  with w(1-4) show ?thesis by (simp add: wf_db_iff)
qed

lemma wf_stage:
  "wf_db d \<Longrightarrow> e_id inst < experiment_seq d \<Longrightarrow> wf_db (snd (stage m req inst field d))"
  by (cases field) (simp_all add: stage_def wf_reconcile wf_related_clear)

lemma wf_instance_save:
  assumes "wf_db d" "inst \<in> set (experiments d)" "e_id new = e_id inst"
  shows "wf_db (instance_save new d)"
proof -
  let ?xs = "map (\<lambda>r. if e_id r = e_id inst then new else r) (experiments d)"
  have ids: "map e_id ?xs = map e_id (experiments d)"
    using assms(3) by (induction "experiments d") auto
  have "e_id inst \<in> e_id ` set (experiments d)" using assms(2) by blast
  then have e: "experiments (instance_save new d) = ?xs"
    using assms(3) by (simp add: instance_save_def)
  have "distinct (map e_id ?xs)" unfolding ids using assms(1) by (simp add: wf_db_iff)
  moreover have "\<forall>r\<in>set ?xs. e_id r < experiment_seq d"
  proof -
    have "set (map e_id ?xs) = set (map e_id (experiments d))" by (simp only: ids)
    then show ?thesis using assms(1) unfolding wf_db_iff by (metis (no_types, lifting) image_iff list.set_map)
  qed
  ultimately show ?thesis using assms(1) unfolding wf_db_iff e by simp
qed

lemma wf_Experiment_objects_create:
  assumes "wf_db d"
  shows "wf_db (snd (Experiment_objects_create su vd d))"
proof -
  from assms have "\<forall>r\<in>set (experiments d). e_id r \<noteq> experiment_seq d"
    by (fastforce simp: wf_db_iff)
  then have "experiment_seq d \<notin> e_id ` set (experiments d)" by auto
  with assms show ?thesis
    by (auto simp: wf_db_iff Experiment_objects_create_def Let_def less_Suc_eq)
qed

lemma wf_create:
  assumes "wf_db d"
  shows "wf_db (snd (ExperimentViewSet_perform_create req cd d))"
proof -
  let ?e = "fst (Experiment_objects_create (user req) cd d)"
  let ?d1 = "snd (Experiment_objects_create (user req) cd d)"
  let ?t = "reconcile Tag (user req) (or_default [] (c_tags cd)) (e_id ?e) ?d1"
  let ?i = "reconcile Ingredient (user req) (or_default [] (c_ingredients cd)) (e_id ?e) (snd ?t)"
  have 1: "wf_db ?d1" using assms by (rule wf_Experiment_objects_create)
  have lt: "e_id ?e < experiment_seq ?d1" by simp
  have 2: "wf_db (snd ?t)" using 1 lt by (rule wf_reconcile)
  have "e_id ?e < experiment_seq (snd ?t)" by simp
  with 2 have 3: "wf_db (snd ?i)" by (rule wf_reconcile)
  have "snd (ExperimentViewSet_perform_create req cd d) = snd ?t \<or>
        snd (ExperimentViewSet_perform_create req cd d) = snd ?i"
    by (auto simp: ExperimentViewSet_perform_create_def create_stages Let_def split: sum.splits)
  with 2 3 show ?thesis by auto
qed

lemma wf_serializer_update:
  assumes "wf_db d" "inst \<in> set (experiments d)"
  shows "wf_db (snd (ExperimentDetailSerializer_update req inst vd d))"
proof -
  let ?d1 = "snd (stage Tag req inst (v_tags vd) d)"
  let ?d2 = "snd (stage Ingredient req inst (v_ingredients vd) ?d1)"
  from assms have lt: "e_id inst < experiment_seq d" by (simp add: wf_db_iff)
  have 1: "wf_db ?d1" using assms(1) lt by (rule wf_stage)
  have "e_id inst < experiment_seq ?d1" using lt by simp
  with 1 have 2: "wf_db ?d2" by (rule wf_stage)
  have "inst \<in> set (experiments ?d2)" using assms(2) by simp
  with 2 have 3: "wf_db (instance_save (setattrs vd inst) ?d2)"
    by (rule wf_instance_save) simp
  have "snd (ExperimentDetailSerializer_update req inst vd d) = ?d1 \<or>
        snd (ExperimentDetailSerializer_update req inst vd d) = ?d2 \<or>
        snd (ExperimentDetailSerializer_update req inst vd d) = instance_save (setattrs vd inst) ?d2"
    by (auto simp: update_stages split: prod.splits sum.splits)
  with 1 2 3 show ?thesis by auto
qed

lemma wf_update:
  assumes "wf_db d"
  shows "wf_db (snd (ExperimentViewSet_update req pk payload d))"
proof (cases "get_object e_id (ExperimentViewSet_get_queryset req d) pk")
  case (Inl err)
  with assms show ?thesis by (simp add: ExperimentViewSet_update_def)
next
  case (Inr inst)
  from get_object_Inr [OF Inr] have "inst \<in> set (experiments d)" by simp
  with assms show ?thesis
    using Inr by (simp add: ExperimentViewSet_update_def wf_serializer_update)
qed

lemma wf_destroy:
  assumes "wf_db d"
  shows "wf_db (snd (ExperimentViewSet_destroy req pk d))"
proof (cases "get_object e_id (ExperimentViewSet_get_queryset req d) pk")
  case (Inl err)
  with assms show ?thesis by (simp add: ExperimentViewSet_destroy_def)
next
  case (Inr inst)
  from assms have w: "distinct (map e_id (experiments d))"
    "\<forall>r\<in>set (experiments d). e_id r < experiment_seq d"
    "\<And>m. distinct (map a_id (attrs d m))"
    "\<And>m. \<forall>r\<in>set (attrs d m). a_id r < attr_seq d m"
    "\<And>m. distinct (links d m)"
    "\<And>m. \<forall>p\<in>set (links d m). fst p < experiment_seq d \<and> snd p < attr_seq d m"
    by (simp_all add: wf_db_iff)
  let ?d' = "instance_delete inst d"
  have s: "experiment_seq ?d' = experiment_seq d" "attr_seq ?d' = attr_seq d"
    "attrs ?d' = attrs d"
    "experiments ?d' = filter (\<lambda>r. e_id r \<noteq> e_id inst) (experiments d)"
    by (simp_all add: instance_delete_def)
  have l: "links ?d' m = filter (\<lambda>p. fst p \<noteq> e_id inst) (links d m)" for m
    by (simp add: instance_delete_def)
  have L: "distinct (links ?d' m) \<and>
      (\<forall>p\<in>set (links ?d' m). fst p < experiment_seq ?d' \<and> snd p < attr_seq ?d' m)" for m
    unfolding l s using w(5,6) [of m] by auto
  have A: "distinct (map a_id (attrs ?d' m)) \<and>
      (\<forall>r\<in>set (attrs ?d' m). a_id r < attr_seq ?d' m)" for m
    unfolding s using w(3,4) [of m] by simp
  have E: "distinct (map e_id (experiments ?d')) \<and>
      (\<forall>r\<in>set (experiments ?d'). e_id r < experiment_seq ?d')"
    unfolding s using w(1,2) by (simp add: distinct_map_filter)
  have "wf_db ?d'" unfolding wf_db_iff using E A L by blast
  with Inr show ?thesis by (simp add: ExperimentViewSet_destroy_def)
qed

lemma wf_attr_update:
  assumes "wf_db d"
  shows "wf_db (snd (BaseExperimentAttrViewSet_update m req pk name d))"
proof (cases "get_object a_id (BaseExperimentAttrViewSet_get_queryset m req d) pk")
  case (Inl err)
  with assms show ?thesis by (simp add: BaseExperimentAttrViewSet_update_def)
next
  case (Inr obj)
  from get_object_Inr [OF Inr] have obj: "obj \<in> set (attrs d m)" by simp
  let ?new = "obj\<lparr>a_name := or_default (a_name obj) name\<rparr>"
  let ?xs = "map (\<lambda>r. if a_id r = a_id obj then ?new else r) (attrs d m)"
  have ids: "map a_id ?xs = map a_id (attrs d m)" by (induction "attrs d m") auto
  have "a_id ?new \<in> a_id ` set (attrs d m)" using obj by auto
  then have a: "attrs (attr_save m ?new d) = (attrs d)(m := ?xs)"
    by (simp add: attr_save_def)
  from assms have w: "distinct (map e_id (experiments d))"
    "\<forall>r\<in>set (experiments d). e_id r < experiment_seq d"
    "\<And>m. distinct (map a_id (attrs d m))"
    "\<And>m. \<forall>r\<in>set (attrs d m). a_id r < attr_seq d m"
    "\<And>m. distinct (links d m)"
    "\<And>m. \<forall>p\<in>set (links d m). fst p < experiment_seq d \<and> snd p < attr_seq d m"
    by (simp_all add: wf_db_iff)
  have d: "distinct (map a_id ?xs)" unfolding ids by (rule w(3))
  have "set (map a_id ?xs) = set (map a_id (attrs d m))" by (simp only: ids)
  then have b: "\<forall>r\<in>set ?xs. a_id r < attr_seq d m"
    using w(4) [of m] by (metis (no_types, lifting) image_iff list.set_map)
  have "distinct (map a_id (attrs (attr_save m ?new d) m')) \<and>
      (\<forall>r\<in>set (attrs (attr_save m ?new d) m'). a_id r < attr_seq d m')" for m'
    unfolding a using d b w(3,4) [of m'] by (cases "m' = m") simp_all
  then have "wf_db (attr_save m ?new d)"
    using w(1,2,5,6) unfolding wf_db_iff by (simp add: attr_save_def)
  with Inr show ?thesis by (simp add: BaseExperimentAttrViewSet_update_def Let_def)
qed

lemma wf_attr_destroy:
  assumes "wf_db d"
  shows "wf_db (snd (BaseExperimentAttrViewSet_destroy m req pk d))"
proof (cases "get_object a_id (BaseExperimentAttrViewSet_get_queryset m req d) pk")
  case (Inl err)
  with assms show ?thesis by (simp add: BaseExperimentAttrViewSet_destroy_def)
next
  case (Inr obj)
  from assms have w: "distinct (map e_id (experiments d))"
    "\<forall>r\<in>set (experiments d). e_id r < experiment_seq d"
    "\<And>m. distinct (map a_id (attrs d m))"
    "\<And>m. \<forall>r\<in>set (attrs d m). a_id r < attr_seq d m"
    "\<And>m. distinct (links d m)"
    "\<And>m. \<forall>p\<in>set (links d m). fst p < experiment_seq d \<and> snd p < attr_seq d m"
    by (simp_all add: wf_db_iff)
  have "distinct (map a_id (attrs (attr_delete m obj d) m')) \<and>
      (\<forall>r\<in>set (attrs (attr_delete m obj d) m'). a_id r < attr_seq d m') \<and>
      distinct (links (attr_delete m obj d) m') \<and>
      (\<forall>p\<in>set (links (attr_delete m obj d) m').
          fst p < experiment_seq d \<and> snd p < attr_seq d m')" for m'
    using w(3-6) [of m'] by (cases "m' = m") (simp_all add: attr_delete_def distinct_map_filter)
  then have "wf_db (attr_delete m obj d)"
    using w(1,2) unfolding wf_db_iff by (simp add: attr_delete_def)
  with Inr show ?thesis by (simp add: BaseExperimentAttrViewSet_destroy_def)
qed

text \<open>Every database that requests lead to has primary keys.\<close>

lemma reachable_wf: "reachable d \<Longrightarrow> wf_db d"
  by (induction rule: reachable.induct)
    (simp_all add: wf_empty_db wf_create wf_update wf_destroy wf_attr_update wf_attr_destroy)

text \<open>
  The database with two tags of one name arises from two requests: a create request with
  the tags a and b, and a rename of b to a.
\<close>

lemma db_renamed_reachable:
  "reachable (snd (BaseExperimentAttrViewSet_update Tag req1 2 (Some ''a'')
      (snd (ExperimentViewSet_perform_create req1 create_ab empty_db))))"
  by (intro reachable.intros)

lemma db_renamed_arises:
  "(snd (BaseExperimentAttrViewSet_update Tag req1 2 (Some ''a'')
      (snd (ExperimentViewSet_perform_create req1 create_ab empty_db))))\<lparr>calls := []\<rparr> = db_renamed"
  by (simp add: BaseExperimentAttrViewSet_update_def BaseExperimentAttrViewSet_get_queryset_def
      get_object_def attr_save_def ExperimentViewSet_perform_create_def
      ExperimentDetailSerializer_create_def Experiment_objects_create_def create_ab_def
      empty_db_def db_renamed_def req1_def or_default_def objects_get_or_create_def
      related_add_def matching_def Let_def fun_eq_iff split: model.split)

section \<open>Get-or-create: reuse, creation and ownership\<close>

text \<open>
  Claim C4, as amended. Let the requester own at most one row for each submitted name;
  exactly then the loop does not raise, and otherwise it raises \<open>MultipleObjectsReturned\<close>.
  Under that condition every descriptor is resolved: a name for which the requester owns a
  row reuses that row and adds none, and the row is associated with the experiment; a name
  for which the requester owns no row gets one new row, associated with the experiment;
  the table grows by one row for each distinct name that had none. In every case rows are
  only appended, each appended row is the requester's and carries a submitted name, and the
  rows of another user are neither reused nor changed: the same name submitted by another
  user gets a row of its own.
\<close>

theorem get_or_create_reuses_or_creates:
  assumes run: "get_or_create_attrs m req ns e d = (res, d')"
  shows "(res = Inr ()) = resolvable m (user req) ns d \<and>
    (res = Inr () \<or> res = Inl MultipleObjectsReturned) \<and>
    (resolvable m (user req) ns d \<longrightarrow>
      (\<forall>n\<in>set ns. \<forall>r. matching (user req) n (attrs d m) = [r] \<longrightarrow>
          matching (user req) n (attrs d' m) = [r] \<and> (e_id e, a_id r) \<in> set (links d' m)) \<and>
      (\<forall>n\<in>set ns. matching (user req) n (attrs d m) = [] \<longrightarrow>
          (\<exists>r. matching (user req) n (attrs d' m) = [r] \<and> r \<notin> set (attrs d m) \<and>
               (e_id e, a_id r) \<in> set (links d' m))) \<and>
      length (attrs d' m) = length (attrs d m) +
         length (remdups (filter (\<lambda>n. matching (user req) n (attrs d m) = []) ns))) \<and>
    (\<exists>news. attrs d' m = attrs d m @ news \<and>
         (\<forall>r\<in>set news. a_user r = user req \<and> a_name r \<in> set ns)) \<and>
    (\<forall>u' n'. u' \<noteq> user req \<longrightarrow> matching u' n' (attrs d' m) = matching u' n' (attrs d m))"
proof -
  let ?u = "user req"
  have rec: "reconcile m ?u ns (e_id e) d = (res, d')"
    using run by (simp add: get_or_create_attrs_reconcile)
  then have res: "res = fst (reconcile m ?u ns (e_id e) d)"
    and d': "d' = snd (reconcile m ?u ns (e_id e) d)" by simp_all
  have 1: "(res = Inr ()) = resolvable m ?u ns d"
    unfolding res by (rule reconcile_ok)
  have 2: "res = Inr () \<or> res = Inl MultipleObjectsReturned"
  proof (cases res)
    case (Inl err)
    then show ?thesis using reconcile_error [of m ?u ns "e_id e" d err] res by simp
  qed simp
  have 3: "matching ?u n (attrs d' m) = [r] \<and> (e_id e, a_id r) \<in> set (links d' m)"
    if a: "resolvable m ?u ns d" and b: "n \<in> set ns" and c: "matching ?u n (attrs d m) = [r]" for n r
  proof -
    have "matching ?u n (attrs d' m) = matching ?u n (attrs d m)"
      unfolding d' by (rule reconcile_matching_keep) (simp add: c)
    moreover obtain r' where "matching ?u n (attrs d' m) = [r']"
      "(e_id e, a_id r') \<in> set (links d' m)"
      using reconcile_resolved [OF a b, of "e_id e"] unfolding d' by blast
    ultimately show ?thesis using c by simp
  qed
  have 4: "\<exists>r. matching ?u n (attrs d' m) = [r] \<and> r \<notin> set (attrs d m) \<and>
               (e_id e, a_id r) \<in> set (links d' m)"
    if a: "resolvable m ?u ns d" and b: "n \<in> set ns" and c: "matching ?u n (attrs d m) = []" for n
  proof -
    obtain r where r: "matching ?u n (attrs d' m) = [r]" "(e_id e, a_id r) \<in> set (links d' m)"
      using reconcile_resolved [OF a b, of "e_id e"] unfolding d' by blast
    then have "r \<in> set (matching ?u n (attrs d' m))" by simp
    then have "a_user r = ?u \<and> a_name r = n" by (simp add: matching_def)
    then have "r \<notin> set (attrs d m)"
      using c by (auto simp: matching_def filter_empty_conv)
    with r show ?thesis by blast
  qed
  have 5: "length (attrs d' m) = length (attrs d m) +
         length (remdups (filter (\<lambda>n. matching ?u n (attrs d m) = []) ns))"
    if "resolvable m ?u ns d"
    unfolding d' using that by (rule reconcile_row_count)
  have 6: "\<exists>news. attrs d' m = attrs d m @ news \<and>
         (\<forall>r\<in>set news. a_user r = ?u \<and> a_name r \<in> set ns)"
    using reconcile_attrs [of m ?u ns "e_id e" d] unfolding d' by blast
  have 7: "matching u' n' (attrs d' m) = matching u' n' (attrs d m)" if "u' \<noteq> ?u" for u' n'
    unfolding d' by (rule reconcile_matching_keep) (simp add: that)
  show ?thesis using 1 2 3 4 5 6 7 by blast
qed

text \<open>
  User 1 submits BNU and a new name: the BNU row of user 1 is reused, the BNU row of user 2
  stays as it is, and one row is added.
\<close>

theorem get_or_create_reuses_or_creates_witness:
  "resolvable Tag (user req1) [''BNU'', ''new''] db_sample \<and>
   fst (get_or_create_attrs Tag req1 [''BNU'', ''new''] exp1 db_sample) = Inr () \<and>
   matching 1 ''BNU'' (attrs (snd (get_or_create_attrs Tag req1 [''BNU'', ''new''] exp1 db_sample)) Tag) =
     [\<lparr>a_id = 2, a_user = 1, a_name = ''BNU''\<rparr>] \<and>
   (1, 2) \<in> set (links (snd (get_or_create_attrs Tag req1 [''BNU'', ''new''] exp1 db_sample)) Tag) \<and>
   matching 2 ''BNU'' (attrs (snd (get_or_create_attrs Tag req1 [''BNU'', ''new''] exp1 db_sample)) Tag) =
     [\<lparr>a_id = 3, a_user = 2, a_name = ''BNU''\<rparr>] \<and>
   length (attrs (snd (get_or_create_attrs Tag req1 [''BNU'', ''new''] exp1 db_sample)) Tag) = 4"
proof -
  let ?run = "get_or_create_attrs Tag req1 [''BNU'', ''new''] exp1 db_sample"
  have run: "?run = (fst ?run, snd ?run)" by simp
  have u: "user req1 = 1" "e_id exp1 = 1" by (simp_all add: req1_def exp1_def)
  have res: "resolvable Tag (user req1) [''BNU'', ''new''] db_sample"
    by (simp add: resolvable_def db_sample_def req1_def matching_def)
  have m1: "matching (user req1) ''BNU'' (attrs db_sample Tag) = [\<lparr>a_id = 2, a_user = 1, a_name = ''BNU''\<rparr>]"
    by (simp add: db_sample_def req1_def matching_def)
  have m2: "matching 2 ''BNU'' (attrs db_sample Tag) = [\<lparr>a_id = 3, a_user = 2, a_name = ''BNU''\<rparr>]"
    by (simp add: db_sample_def matching_def)
  have len: "length (attrs db_sample Tag) +
      length (remdups (filter (\<lambda>n. matching (user req1) n (attrs db_sample Tag) = []) [''BNU'', ''new''])) = 4"
    by (simp add: db_sample_def req1_def matching_def)
  note t = get_or_create_reuses_or_creates [OF run]
  from t res have ok: "fst ?run = Inr ()" by simp
  from t res have "\<forall>n\<in>set [''BNU'', ''new'']. \<forall>r. matching (user req1) n (attrs db_sample Tag) = [r] \<longrightarrow>
          matching (user req1) n (attrs (snd ?run) Tag) = [r] \<and> (e_id exp1, a_id r) \<in> set (links (snd ?run) Tag)"
    by (elim conjE) (erule (1) impE, elim conjE, assumption)
  with m1 have reuse: "matching (user req1) ''BNU'' (attrs (snd ?run) Tag) = [\<lparr>a_id = 2, a_user = 1, a_name = ''BNU''\<rparr>] \<and>
      (e_id exp1, 2) \<in> set (links (snd ?run) Tag)"
    by fastforce
  from t res have "length (attrs (snd ?run) Tag) = length (attrs db_sample Tag) +
         length (remdups (filter (\<lambda>n. matching (user req1) n (attrs db_sample Tag) = []) [''BNU'', ''new'']))"
    by (elim conjE) (erule (1) impE, elim conjE, assumption)
  with len have count: "length (attrs (snd ?run) Tag) = 4" by simp
  from t have "\<forall>u' n'. u' \<noteq> user req1 \<longrightarrow>
      matching u' n' (attrs (snd ?run) Tag) = matching u' n' (attrs db_sample Tag)"
    by (elim conjE)
  then have "matching 2 ''BNU'' (attrs (snd ?run) Tag) = matching 2 ''BNU'' (attrs db_sample Tag)"
    by (simp add: u)
  with m2 have other: "matching 2 ''BNU'' (attrs (snd ?run) Tag) = [\<lparr>a_id = 3, a_user = 2, a_name = ''BNU''\<rparr>]"
    by simp
  show ?thesis using res ok reuse count other by (simp add: u)
qed

text \<open>
  Claim C4 as stated fails where the requester owns two rows with the submitted name (a
  database that a create request and a rename lead to, \<open>db_renamed_arises\<close>): a create
  request with the tag a raises, and nothing is associated with the new experiment.
\<close>

theorem get_or_create_reuse_counterexample:
  "matching (user req1) ''a'' (attrs db_renamed Tag) =
     [\<lparr>a_id = 1, a_user = 1, a_name = ''a''\<rparr>, \<lparr>a_id = 2, a_user = 1, a_name = ''a''\<rparr>] \<and>
   fst (ExperimentViewSet_perform_create req1 create_a db_renamed) = Inl MultipleObjectsReturned \<and>
   linked Tag 2 (snd (ExperimentViewSet_perform_create req1 create_a db_renamed)) = []"
  by (simp add: ExperimentViewSet_perform_create_def ExperimentDetailSerializer_create_def
      Experiment_objects_create_def create_a_def db_renamed_def req1_def or_default_def
      objects_get_or_create_def matching_def linked_def Let_def)

section \<open>The assigned-only flag of the attribute lists\<close>

text \<open>
  Claim C1 does not hold of the code: \<open>get_queryset\<close> of the attribute views never reads the
  query parameters, so the list is the same with and without \<open>assigned_only\<close>. On the
  database of the repository's own test (two tags of the requester, one of them associated
  with an experiment) the request with \<open>assigned_only=1\<close> lists both tags, also t2, which
  no experiment is associated with.
\<close>

theorem assigned_only_is_ignored:
  "BaseExperimentAttrViewSet_list m (req\<lparr>query_params := q\<rparr>) d =
     BaseExperimentAttrViewSet_list m req d \<and>
   BaseExperimentAttrViewSet_list Tag req_assigned_only db_filter =
     [\<lparr>a_id = 2, a_user = 1, a_name = ''t2''\<rparr>, \<lparr>a_id = 1, a_user = 1, a_name = ''t1''\<rparr>] \<and>
   linked Tag 1 db_filter = [1] \<and>
   filter (\<lambda>p. snd p = 2) (links db_filter Tag) = []"
  by (simp add: BaseExperimentAttrViewSet_list_def BaseExperimentAttrViewSet_get_queryset_def
      req_assigned_only_def db_filter_def linked_def)

section \<open>Create: the order of persisting and reconciling\<close>

text \<open>
  Claim C2, as amended. In a create request the experiment is inserted first, and the two
  loops run after it, on the inserted experiment. The calls the request issues are the
  insert of the experiment, with the next identifier of the sequence, followed by calls of
  the loops only, each of them a lookup for the requester or an association of the inserted
  experiment; so the insert comes before every call of the loops, and a request with a tag
  descriptor issues such a call after the insert. The inserted row is the last of the table,
  has that identifier and the given owner, and is what a successful request returns. The
  request succeeds exactly when the requester owns at most one row for each submitted tag
  name and each submitted ingredient name. Then the calls are exactly: the insert; for each
  tag name in turn its lookup and the association of the inserted experiment with the row
  of that name; then the same for each ingredient name; and afterwards every submitted tag
  and ingredient name has exactly one row of the requester, associated with the inserted
  experiment.
\<close>

theorem create_persists_before_reconciling:
  "(\<exists>rest. calls (snd (ExperimentDetailSerializer_create req su vd d)) =
            calls d @ ExperimentCreate (experiment_seq d) # rest \<and>
          list_all reconciler_call rest \<and>
          list_all (call_on (user req) (experiment_seq d)) rest \<and>
          all_before persist_call reconciler_call (ExperimentCreate (experiment_seq d) # rest) \<and>
          (or_default [] (c_tags vd) \<noteq> [] \<longrightarrow> rest \<noteq> []) \<and>
          (rest \<noteq> [] \<longrightarrow>
             \<not> all_before reconciler_call persist_call (ExperimentCreate (experiment_seq d) # rest))) \<and>
   (\<exists>e. experiments (snd (ExperimentDetailSerializer_create req su vd d)) = experiments d @ [e] \<and>
        e_id e = experiment_seq d \<and> e_user e = su \<and>
        (\<forall>e'. fst (ExperimentDetailSerializer_create req su vd d) = Inr e' \<longrightarrow> e' = e)) \<and>
   ((\<exists>e'. fst (ExperimentDetailSerializer_create req su vd d) = Inr e') \<longleftrightarrow>
      resolvable Tag (user req) (or_default [] (c_tags vd)) d \<and>
      resolvable Ingredient (user req) (or_default [] (c_ingredients vd)) d) \<and>
   (resolvable Tag (user req) (or_default [] (c_tags vd)) d \<and>
    resolvable Ingredient (user req) (or_default [] (c_ingredients vd)) d \<longrightarrow>
      calls (snd (ExperimentDetailSerializer_create req su vd d)) =
        calls d @ ExperimentCreate (experiment_seq d) #
          loop_calls Tag (user req) (experiment_seq d)
            (snd (ExperimentDetailSerializer_create req su vd d)) (or_default [] (c_tags vd)) @
          loop_calls Ingredient (user req) (experiment_seq d)
            (snd (ExperimentDetailSerializer_create req su vd d))
            (or_default [] (c_ingredients vd)) \<and>
      (\<forall>n\<in>set (or_default [] (c_tags vd)).
         \<exists>r. matching (user req) n
                (attrs (snd (ExperimentDetailSerializer_create req su vd d)) Tag) = [r] \<and>
             (experiment_seq d, a_id r) \<in>
               set (links (snd (ExperimentDetailSerializer_create req su vd d)) Tag)) \<and>
      (\<forall>n\<in>set (or_default [] (c_ingredients vd)).
         \<exists>r. matching (user req) n
                (attrs (snd (ExperimentDetailSerializer_create req su vd d)) Ingredient) = [r] \<and>
             (experiment_seq d, a_id r) \<in>
               set (links (snd (ExperimentDetailSerializer_create req su vd d)) Ingredient)))"
proof -
  let ?k = "experiment_seq d" and ?u = "user req"
  let ?tags = "or_default [] (c_tags vd)" and ?ings = "or_default [] (c_ingredients vd)"
  let ?e = "fst (Experiment_objects_create su vd d)"
  let ?d1 = "snd (Experiment_objects_create su vd d)"
  let ?t = "reconcile Tag ?u ?tags ?k ?d1"
  let ?i = "reconcile Ingredient ?u ?ings ?k (snd ?t)"
  let ?run = "ExperimentDetailSerializer_create req su vd d"
  let ?d' = "snd ?run"
  have stages: "?run = (case fst ?t of
           Inl err \<Rightarrow> (Inl err, snd ?t)
         | Inr _ \<Rightarrow> (case fst ?i of Inl err \<Rightarrow> (Inl err, snd ?i) | Inr _ \<Rightarrow> (Inr ?e, snd ?i)))"
    by (simp add: create_stages Let_def cong: sum.case_cong)
  have rt: "resolvable Tag ?u ?tags ?d1 = resolvable Tag ?u ?tags d"
    by (rule resolvable_cong) simp
  have ri: "resolvable Ingredient ?u ?ings (snd ?t) = resolvable Ingredient ?u ?ings d"
    by (rule resolvable_cong) simp
  have okt: "fst ?t = Inr () \<longleftrightarrow> resolvable Tag ?u ?tags d" by (simp add: reconcile_ok rt)
  have oki: "fst ?i = Inr () \<longleftrightarrow> resolvable Ingredient ?u ?ings d" by (simp add: reconcile_ok ri)
  \<comment> \<open>the calls\<close>
  obtain cs1 where 1: "calls (snd ?t) = calls ?d1 @ cs1" "list_all (call_on ?u ?k) cs1"
    using reconcile_calls_on by blast
  obtain cs2 where 2: "calls (snd ?i) = calls (snd ?t) @ cs2" "list_all (call_on ?u ?k) cs2"
    using reconcile_calls_on by blast
  have ne: "cs1 \<noteq> []" if "?tags \<noteq> []"
    using reconcile_calls_nonempty [OF that, of Tag ?u ?k ?d1] 1(1) by auto
  have "?d' = snd ?t \<or> ?d' = snd ?i"
    by (auto simp: stages split: sum.splits)
  then obtain rest where rest: "calls ?d' = calls d @ ExperimentCreate ?k # rest"
    "list_all (call_on ?u ?k) rest" "?tags \<noteq> [] \<longrightarrow> rest \<noteq> []"
  proof
    assume "?d' = snd ?t"
    then show ?thesis using 1 ne by (intro that [of cs1]) simp_all
  next
    assume "?d' = snd ?i"
    then show ?thesis using 1 2 ne by (intro that [of "cs1 @ cs2"]) simp_all
  qed
  have rc: "list_all reconciler_call rest"
    using rest(2) by (auto simp: list_all_iff intro: call_on_reconciler)
  have A: "\<exists>rest. calls ?d' = calls d @ ExperimentCreate ?k # rest \<and>
          list_all reconciler_call rest \<and> list_all (call_on ?u ?k) rest \<and>
          all_before persist_call reconciler_call (ExperimentCreate ?k # rest) \<and>
          (?tags \<noteq> [] \<longrightarrow> rest \<noteq> []) \<and>
          (rest \<noteq> [] \<longrightarrow> \<not> all_before reconciler_call persist_call (ExperimentCreate ?k # rest))"
  proof (intro exI [of _ rest] conjI impI)
    show "all_before persist_call reconciler_call (ExperimentCreate ?k # rest)"
      using all_before_persist_reconciler [OF rc] by simp
    show "\<not> all_before reconciler_call persist_call (ExperimentCreate ?k # rest)" if "rest \<noteq> []"
      using that rc by (rule not_all_before_reconciler_persist)
    show "rest \<noteq> []" if "?tags \<noteq> []" using rest(3) that by simp
  qed (use rest rc in simp_all)
  \<comment> \<open>the inserted row\<close>
  have B: "\<exists>e. experiments ?d' = experiments d @ [e] \<and> e_id e = ?k \<and> e_user e = su \<and>
        (\<forall>e'. fst ?run = Inr e' \<longrightarrow> e' = e)"
    by (intro exI [of _ ?e]) (simp add: create_experiments)
  \<comment> \<open>success\<close>
  have C: "(\<exists>e'. fst ?run = Inr e') \<longleftrightarrow>
      resolvable Tag ?u ?tags d \<and> resolvable Ingredient ?u ?ings d"
    unfolding okt [symmetric] oki [symmetric]
    by (auto simp: stages split: sum.splits)
  have D: "calls ?d' = calls d @ ExperimentCreate ?k #
          loop_calls Tag ?u ?k ?d' ?tags @ loop_calls Ingredient ?u ?k ?d' ?ings \<and>
      (\<forall>n\<in>set ?tags. \<exists>r. matching ?u n (attrs ?d' Tag) = [r] \<and>
             (?k, a_id r) \<in> set (links ?d' Tag)) \<and>
      (\<forall>n\<in>set ?ings. \<exists>r. matching ?u n (attrs ?d' Ingredient) = [r] \<and>
             (?k, a_id r) \<in> set (links ?d' Ingredient))"
    if r1: "resolvable Tag ?u ?tags d" and r2: "resolvable Ingredient ?u ?ings d"
  proof -
    have d': "?d' = snd ?i"
      using r1 r2 okt oki by (simp add: stages)
    have t1: "resolvable Tag ?u ?tags ?d1" using r1 by (simp add: rt)
    have i1: "resolvable Ingredient ?u ?ings (snd ?t)" using r2 by (simp add: ri)
    have ct: "calls (snd ?t) = calls ?d1 @ loop_calls Tag ?u ?k (snd ?t) ?tags"
      using t1 by (rule reconcile_calls_exact)
    have ci: "calls (snd ?i) = calls (snd ?t) @ loop_calls Ingredient ?u ?k (snd ?i) ?ings"
      using i1 by (rule reconcile_calls_exact)
    have same: "loop_calls Tag ?u ?k (snd ?t) ?tags = loop_calls Tag ?u ?k (snd ?i) ?tags"
      by (rule loop_calls_cong) simp
    have calls: "calls ?d' = calls d @ ExperimentCreate ?k #
          loop_calls Tag ?u ?k ?d' ?tags @ loop_calls Ingredient ?u ?k ?d' ?ings"
      unfolding d' ci ct same by simp
    have tg: "\<exists>r. matching ?u n (attrs ?d' Tag) = [r] \<and> (?k, a_id r) \<in> set (links ?d' Tag)"
      if "n \<in> set ?tags" for n
      using reconcile_resolved [OF t1 that, of ?k] unfolding d' by simp
    have ig: "\<exists>r. matching ?u n (attrs ?d' Ingredient) = [r] \<and>
        (?k, a_id r) \<in> set (links ?d' Ingredient)"
      if "n \<in> set ?ings" for n
      using reconcile_resolved [OF i1 that, of ?k] unfolding d' by simp
    show ?thesis using calls tg ig by blast
  qed
  show ?thesis using A B C D by blast
qed

text \<open>
  A create request with the tags a and b and the ingredient x, on the database with no
  rows: the insert, then the tag loop, then the ingredient loop, all on experiment 1.
\<close>

theorem create_persists_before_reconciling_witness:
  "resolvable Tag (user req1) (or_default [] (c_tags create_ab)) empty_db \<and>
   resolvable Ingredient (user req1) (or_default [] (c_ingredients create_ab)) empty_db \<and>
   calls (snd (ExperimentDetailSerializer_create req1 1 create_ab empty_db)) =
     [ExperimentCreate 1, GetOrCreate Tag 1 ''a'', RelatedAdd Tag 1 1,
      GetOrCreate Tag 1 ''b'', RelatedAdd Tag 1 2,
      GetOrCreate Ingredient 1 ''x'', RelatedAdd Ingredient 1 1] \<and>
   all_before persist_call reconciler_call
     (calls (snd (ExperimentDetailSerializer_create req1 1 create_ab empty_db)))"
proof -
  let ?d' = "snd (ExperimentDetailSerializer_create req1 1 create_ab empty_db)"
  have tg: "or_default [] (c_tags create_ab) = [''a'', ''b'']"
    and ig: "or_default [] (c_ingredients create_ab) = [''x'']"
    by (simp_all add: create_ab_def)
  have u: "user req1 = 1" by (simp add: req1_def)
  have k: "experiment_seq empty_db = 1" "calls empty_db = []" by (simp_all add: empty_db_def)
  have r1: "resolvable Tag (user req1) (or_default [] (c_tags create_ab)) empty_db"
    unfolding tg by (simp add: empty_db_def)
  have r2: "resolvable Ingredient (user req1) (or_default [] (c_ingredients create_ab)) empty_db"
    unfolding ig by (simp add: empty_db_def)
  have rows: "attrs ?d' Tag = [\<lparr>a_id = 1, a_user = 1, a_name = ''a''\<rparr>,
                               \<lparr>a_id = 2, a_user = 1, a_name = ''b''\<rparr>]"
    "attrs ?d' Ingredient = [\<lparr>a_id = 1, a_user = 1, a_name = ''x''\<rparr>]"
    by (simp_all add: ExperimentDetailSerializer_create_def Experiment_objects_create_def
        create_ab_def empty_db_def req1_def objects_get_or_create_def related_add_def
        matching_def Let_def)
  note t = create_persists_before_reconciling [of req1 1 create_ab empty_db]
  from t have "resolvable Tag (user req1) (or_default [] (c_tags create_ab)) empty_db \<and>
    resolvable Ingredient (user req1) (or_default [] (c_ingredients create_ab)) empty_db \<longrightarrow>
      calls ?d' =
        calls empty_db @ ExperimentCreate (experiment_seq empty_db) #
          loop_calls Tag (user req1) (experiment_seq empty_db) ?d' (or_default [] (c_tags create_ab)) @
          loop_calls Ingredient (user req1) (experiment_seq empty_db) ?d'
            (or_default [] (c_ingredients create_ab)) \<and>
      (\<forall>n\<in>set (or_default [] (c_tags create_ab)).
         \<exists>r. matching (user req1) n (attrs ?d' Tag) = [r] \<and>
             (experiment_seq empty_db, a_id r) \<in> set (links ?d' Tag)) \<and>
      (\<forall>n\<in>set (or_default [] (c_ingredients create_ab)).
         \<exists>r. matching (user req1) n (attrs ?d' Ingredient) = [r] \<and>
             (experiment_seq empty_db, a_id r) \<in> set (links ?d' Ingredient))"
    by (rule conjunct2 [OF conjunct2 [OF conjunct2]])
  with r1 r2 have "calls ?d' =
        calls empty_db @ ExperimentCreate (experiment_seq empty_db) #
          loop_calls Tag (user req1) (experiment_seq empty_db) ?d' (or_default [] (c_tags create_ab)) @
          loop_calls Ingredient (user req1) (experiment_seq empty_db) ?d'
            (or_default [] (c_ingredients create_ab))"
    by (elim impE conjE) (rule conjI)
  then have trace: "calls ?d' =
     [ExperimentCreate 1, GetOrCreate Tag 1 ''a'', RelatedAdd Tag 1 1,
      GetOrCreate Tag 1 ''b'', RelatedAdd Tag 1 2,
      GetOrCreate Ingredient 1 ''x'', RelatedAdd Ingredient 1 1]"
    unfolding tg ig k u loop_calls_def rows by (simp add: matching_def)
  from t have "\<exists>rest. calls ?d' = calls empty_db @ ExperimentCreate (experiment_seq empty_db) # rest \<and>
          list_all reconciler_call rest \<and>
          list_all (call_on (user req1) (experiment_seq empty_db)) rest \<and>
          all_before persist_call reconciler_call (ExperimentCreate (experiment_seq empty_db) # rest) \<and>
          (or_default [] (c_tags create_ab) \<noteq> [] \<longrightarrow> rest \<noteq> []) \<and>
          (rest \<noteq> [] \<longrightarrow>
             \<not> all_before reconciler_call persist_call
                 (ExperimentCreate (experiment_seq empty_db) # rest))"
    by (rule conjunct1)
  then obtain rest where "calls ?d' = calls empty_db @ ExperimentCreate (experiment_seq empty_db) # rest"
    "all_before persist_call reconciler_call (ExperimentCreate (experiment_seq empty_db) # rest)"
    by (elim exE conjE)
  then have "all_before persist_call reconciler_call (calls ?d')" by (simp add: k)
  with r1 r2 trace show ?thesis by (intro conjI)
qed

text \<open>
  Claim C2 as stated fails on a create request with the tags female and sleep: the first
  call is the insert of the experiment, and the calls of the loop follow it.
\<close>

theorem reconciler_before_persist_counterexample:
  "calls (snd (ExperimentViewSet_perform_create req1 create_sample empty_db)) =
     [ExperimentCreate 1, GetOrCreate Tag 1 ''female'', RelatedAdd Tag 1 1,
      GetOrCreate Tag 1 ''sleep'', RelatedAdd Tag 1 2] \<and>
   \<not> all_before reconciler_call persist_call
       (calls (snd (ExperimentViewSet_perform_create req1 create_sample empty_db)))"
  by (simp add: ExperimentViewSet_perform_create_def ExperimentDetailSerializer_create_def
      Experiment_objects_create_def create_sample_def empty_db_def req1_def or_default_def
      objects_get_or_create_def related_add_def matching_def Let_def)

section \<open>Duplicate names in one submitted list\<close>

text \<open>
  Claim C6, as amended. Let the requester own at most one row for each submitted name, and
  let the join table hold each pair once. Then the loop does not raise, and for every
  submitted name, also one that occurs several times in the list, there is in the end
  exactly one row of the requester with that name; the lookup at each occurrence of the name
  returns that row; and the row is associated with the experiment exactly once. Adding an
  association that is there already leaves the join table as it is. The join table of
  every database that requests lead to holds each pair once (\<open>reachable_wf\<close>).
\<close>

theorem duplicate_names_associate_once:
  assumes run: "get_or_create_attrs m req ns e d = (res, d')"
    and res: "resolvable m (user req) ns d"
    and dist: "distinct (links d m)"
    and n: "n \<in> set ns"
  shows "res = Inr () \<and>
    (\<exists>r. matching (user req) n (attrs d' m) = [r] \<and>
         count_list (links d' m) (e_id e, a_id r) = 1 \<and>
         (\<forall>pre post. ns = pre @ n # post \<longrightarrow>
            (\<exists>created. fst (objects_get_or_create m (user req) n
                 (snd (get_or_create_attrs m req pre e d))) = Inr (r, created)))) \<and>
    links (related_add m (e_id e) aid (related_add m (e_id e) aid d)) =
      links (related_add m (e_id e) aid d)"
proof -
  let ?u = "user req"
  have rec: "reconcile m ?u ns (e_id e) d = (res, d')"
    using run by (simp add: get_or_create_attrs_reconcile)
  then have r': "res = fst (reconcile m ?u ns (e_id e) d)"
    and d': "d' = snd (reconcile m ?u ns (e_id e) d)" by simp_all
  have ok: "res = Inr ()" unfolding r' using res by (simp add: reconcile_ok)
  obtain r where r: "matching ?u n (attrs d' m) = [r]" "(e_id e, a_id r) \<in> set (links d' m)"
    using reconcile_resolved [OF res n, of "e_id e"] unfolding d' by blast
  have "distinct (links d' m)" unfolding d' using dist by (rule reconcile_distinct_links)
  with r(2) have cnt: "count_list (links d' m) (e_id e, a_id r) = 1"
    by (simp add: count_list_distinct)
  have each: "\<exists>created. fst (objects_get_or_create m ?u n
                 (snd (get_or_create_attrs m req pre e d))) = Inr (r, created)"
    if split: "ns = pre @ n # post" for pre post
  proof -
    have "resolvable m ?u (pre @ n # post) d" using res split by simp
    moreover have "matching ?u n (attrs (snd (reconcile m ?u (pre @ n # post) (e_id e) d)) m) = [r]"
      using r(1) unfolding d' split .
    ultimately show ?thesis
      unfolding get_or_create_attrs_reconcile by (rule lookup_returns_final_row)
  qed
  show ?thesis using ok r(1) cnt each related_add_twice by blast
qed

text \<open>User 1 submits the new name sleep twice: one row is created and associated once.\<close>

theorem duplicate_names_associate_once_witness:
  "resolvable Tag (user req1) [''sleep'', ''sleep''] db_sample \<and>
   distinct (links db_sample Tag) \<and>
   fst (get_or_create_attrs Tag req1 [''sleep'', ''sleep''] exp1 db_sample) = Inr () \<and>
   matching 1 ''sleep'' (attrs (snd (get_or_create_attrs Tag req1 [''sleep'', ''sleep''] exp1 db_sample)) Tag) =
     [\<lparr>a_id = 4, a_user = 1, a_name = ''sleep''\<rparr>] \<and>
   count_list (links (snd (get_or_create_attrs Tag req1 [''sleep'', ''sleep''] exp1 db_sample)) Tag) (1, 4) = 1"
proof -
  let ?run = "get_or_create_attrs Tag req1 [''sleep'', ''sleep''] exp1 db_sample"
  have run: "?run = (fst ?run, snd ?run)" by simp
  have u: "user req1 = 1" "e_id exp1 = 1" by (simp_all add: req1_def exp1_def)
  have res: "resolvable Tag (user req1) [''sleep'', ''sleep''] db_sample"
    by (simp add: resolvable_def db_sample_def req1_def matching_def)
  have dist: "distinct (links db_sample Tag)" by (simp add: db_sample_def)
  have n: "''sleep'' \<in> set [''sleep'', ''sleep'']" by simp
  have final: "matching 1 ''sleep'' (attrs (snd ?run) Tag) = [\<lparr>a_id = 4, a_user = 1, a_name = ''sleep''\<rparr>]"
    by (simp add: get_or_create_attrs_def objects_get_or_create_def related_add_def matching_def
        db_sample_def req1_def exp1_def Let_def)
  note t = duplicate_names_associate_once [OF run res dist n]
  from t have ok: "fst ?run = Inr ()" by (rule conjunct1)
  from t have "\<exists>r. matching (user req1) ''sleep'' (attrs (snd ?run) Tag) = [r] \<and>
       count_list (links (snd ?run) Tag) (e_id exp1, a_id r) = 1 \<and>
       (\<forall>pre post. [''sleep'', ''sleep''] = pre @ ''sleep'' # post \<longrightarrow>
          (\<exists>created. fst (objects_get_or_create Tag (user req1) ''sleep''
               (snd (get_or_create_attrs Tag req1 pre exp1 db_sample))) = Inr (r, created)))"
    by (rule conjunct1 [OF conjunct2])
  then obtain r where r: "matching (user req1) ''sleep'' (attrs (snd ?run) Tag) = [r]"
    "count_list (links (snd ?run) Tag) (e_id exp1, a_id r) = 1"
    by (elim exE conjE)
  from r(1) final have "r = \<lparr>a_id = 4, a_user = 1, a_name = ''sleep''\<rparr>" by (simp add: u)
  with r(2) have "count_list (links (snd ?run) Tag) (1, 4) = 1" by (simp add: u)
  with res dist ok final show ?thesis by simp
qed

text \<open>
  Claim C6 as stated fails where the requester owns two rows named a: an update that submits
  a twice raises, the two rows stay two, and the experiment is left with no tag at all.
\<close>

theorem duplicate_names_counterexample:
  "fst (ExperimentViewSet_update req1 1 payload_aa db_renamed) = Inl MultipleObjectsReturned \<and>
   length (matching 1 ''a'' (attrs (snd (ExperimentViewSet_update req1 1 payload_aa db_renamed)) Tag)) = 2 \<and>
   linked Tag 1 (snd (ExperimentViewSet_update req1 1 payload_aa db_renamed)) = []"
  by (simp add: ExperimentViewSet_update_def ExperimentViewSet_get_queryset_def get_object_def
      ExperimentDetailSerializer_update_def update_data.truncate_def related_clear_def
      payload_aa_def db_renamed_def req1_def objects_get_or_create_def matching_def linked_def
      Let_def)

section \<open>Update: clearing and re-association\<close>

text \<open>
  Claim C5, as amended. An update whose request lacks the tags field leaves the tag
  associations and the tag rows as they were, and likewise for ingredients. When the tags
  field is present and the requester owns at most one row for each submitted tag name, the
  experiment is afterwards associated with exactly the rows resolved for the submitted names,
  each once (with none when the list is empty), and the associations of other experiments
  are as before. The same holds for a present ingredients field, provided the tags stage did
  not raise. The update succeeds exactly when every present list is resolvable in this
  sense; otherwise it raises \<open>MultipleObjectsReturned\<close>, and when it is the tags stage
  that raises, the ingredient associations are left as they were.
\<close>

theorem update_clears_then_associates:
  assumes run: "ExperimentDetailSerializer_update req inst vd d = (res, d')"
  shows
    "(v_tags vd = None \<longrightarrow> links d' Tag = links d Tag \<and> attrs d' Tag = attrs d Tag) \<and>
     (v_ingredients vd = None \<longrightarrow>
        links d' Ingredient = links d Ingredient \<and> attrs d' Ingredient = attrs d Ingredient) \<and>
     (\<forall>ts. v_tags vd = Some ts \<and> resolvable Tag (user req) ts d \<longrightarrow>
        set (linked Tag (e_id inst) d') =
          {a_id r | r. r \<in> set (attrs d' Tag) \<and> a_user r = user req \<and> a_name r \<in> set ts} \<and>
        distinct (linked Tag (e_id inst) d') \<and>
        (ts = [] \<longrightarrow> linked Tag (e_id inst) d' = []) \<and>
        filter (\<lambda>p. fst p \<noteq> e_id inst) (links d' Tag) =
          filter (\<lambda>p. fst p \<noteq> e_id inst) (links d Tag)) \<and>
     (\<forall>is. v_ingredients vd = Some is \<and> resolvable Ingredient (user req) is d \<and>
           (\<forall>ts. v_tags vd = Some ts \<longrightarrow> resolvable Tag (user req) ts d) \<longrightarrow>
        set (linked Ingredient (e_id inst) d') =
          {a_id r | r. r \<in> set (attrs d' Ingredient) \<and> a_user r = user req \<and> a_name r \<in> set is} \<and>
        distinct (linked Ingredient (e_id inst) d') \<and>
        (is = [] \<longrightarrow> linked Ingredient (e_id inst) d' = []) \<and>
        filter (\<lambda>p. fst p \<noteq> e_id inst) (links d' Ingredient) =
          filter (\<lambda>p. fst p \<noteq> e_id inst) (links d Ingredient)) \<and>
     ((\<exists>i. res = Inr i) \<longleftrightarrow>
        (\<forall>ts. v_tags vd = Some ts \<longrightarrow> resolvable Tag (user req) ts d) \<and>
        (\<forall>is. v_ingredients vd = Some is \<longrightarrow> resolvable Ingredient (user req) is d)) \<and>
     ((\<forall>i. res \<noteq> Inr i) \<longrightarrow> res = Inl MultipleObjectsReturned) \<and>
     ((\<exists>ts. v_tags vd = Some ts \<and> \<not> resolvable Tag (user req) ts d) \<longrightarrow>
        links d' Ingredient = links d Ingredient)"
proof -
  let ?d1 = "snd (stage Tag req inst (v_tags vd) d)"
  let ?d2 = "snd (stage Ingredient req inst (v_ingredients vd) ?d1)"
  note tag = update_tag_tables [OF run]
  note ing = update_ingredient_tables [OF run]
  have tag_ok: "fst (stage Tag req inst (v_tags vd) d) = Inr () \<longleftrightarrow>
      (\<forall>ts. v_tags vd = Some ts \<longrightarrow> resolvable Tag (user req) ts d)"
    by (simp add: stage_ok split: option.splits)
  have res1: "resolvable Ingredient (user req) is ?d1 = resolvable Ingredient (user req) is d" for "is"
    by (rule resolvable_cong) simp
  have ing_ok: "fst (stage Ingredient req inst (v_ingredients vd) ?d1) = Inr () \<longleftrightarrow>
      (\<forall>is. v_ingredients vd = Some is \<longrightarrow> resolvable Ingredient (user req) is d)"
    by (simp add: stage_ok res1 split: option.splits)
  have 1: "links d' Tag = links d Tag \<and> attrs d' Tag = attrs d Tag" if "v_tags vd = None"
    using tag that by simp
  have 2: "links d' Ingredient = links d Ingredient \<and> attrs d' Ingredient = attrs d Ingredient"
    if n: "v_ingredients vd = None"
  proof (cases "fst (stage Tag req inst (v_tags vd) d) = Inr ()")
    case True
    from ing(1) [OF True] show ?thesis by (simp add: n)
  next
    case False
    from ing(2) [OF False] show ?thesis .
  qed
  have 3: "set (linked Tag (e_id inst) d') =
          {a_id r | r. r \<in> set (attrs d' Tag) \<and> a_user r = user req \<and> a_name r \<in> set ts} \<and>
        distinct (linked Tag (e_id inst) d') \<and>
        (ts = [] \<longrightarrow> linked Tag (e_id inst) d' = []) \<and>
        filter (\<lambda>p. fst p \<noteq> e_id inst) (links d' Tag) =
          filter (\<lambda>p. fst p \<noteq> e_id inst) (links d Tag)"
    if ts: "v_tags vd = Some ts" and r: "resolvable Tag (user req) ts d" for ts
  proof -
    have l: "linked Tag (e_id inst) d' = linked Tag (e_id inst) (snd (stage Tag req inst (Some ts) d))"
      using tag(1) ts by (simp add: linked_def)
    have a: "attrs d' Tag = attrs (snd (stage Tag req inst (Some ts) d)) Tag"
      using tag(2) ts by simp
    have k: "links d' Tag = links (snd (stage Tag req inst (Some ts) d)) Tag"
      using tag(1) ts by simp
    note sl = stage_linked [OF r, of inst]
    have s: "set (linked Tag (e_id inst) d') =
          {a_id r | r. r \<in> set (attrs d' Tag) \<and> a_user r = user req \<and> a_name r \<in> set ts}"
      unfolding l a by (rule sl(1))
    then have e: "ts = [] \<longrightarrow> linked Tag (e_id inst) d' = []" by auto
    show ?thesis using s e sl(2,3) unfolding l k by simp
  qed
  have 4: "set (linked Ingredient (e_id inst) d') =
          {a_id r | r. r \<in> set (attrs d' Ingredient) \<and> a_user r = user req \<and> a_name r \<in> set is} \<and>
        distinct (linked Ingredient (e_id inst) d') \<and>
        (is = [] \<longrightarrow> linked Ingredient (e_id inst) d' = []) \<and>
        filter (\<lambda>p. fst p \<noteq> e_id inst) (links d' Ingredient) =
          filter (\<lambda>p. fst p \<noteq> e_id inst) (links d Ingredient)"
    if ig: "v_ingredients vd = Some is" and r: "resolvable Ingredient (user req) is d"
      and t: "\<forall>ts. v_tags vd = Some ts \<longrightarrow> resolvable Tag (user req) ts d" for "is"
  proof -
    have ok: "fst (stage Tag req inst (v_tags vd) d) = Inr ()" using t by (simp add: tag_ok)
    note i = ing(1) [OF ok]
    have l: "linked Ingredient (e_id inst) d' =
             linked Ingredient (e_id inst) (snd (stage Ingredient req inst (Some is) ?d1))"
      using i ig by (simp add: linked_def)
    have a: "attrs d' Ingredient = attrs (snd (stage Ingredient req inst (Some is) ?d1)) Ingredient"
      using i ig by simp
    have k: "links d' Ingredient = links (snd (stage Ingredient req inst (Some is) ?d1)) Ingredient"
      using i ig by simp
    have r1: "resolvable Ingredient (user req) is ?d1" using r by (simp add: res1)
    note sl = stage_linked [OF r1, of inst]
    have s: "set (linked Ingredient (e_id inst) d') =
          {a_id r | r. r \<in> set (attrs d' Ingredient) \<and> a_user r = user req \<and> a_name r \<in> set is}"
      unfolding l a by (rule sl(1))
    then have e: "is = [] \<longrightarrow> linked Ingredient (e_id inst) d' = []" by auto
    have "filter (\<lambda>p. fst p \<noteq> e_id inst) (links d' Ingredient) =
          filter (\<lambda>p. fst p \<noteq> e_id inst) (links ?d1 Ingredient)"
      unfolding k by (rule sl(3))
    then have f: "filter (\<lambda>p. fst p \<noteq> e_id inst) (links d' Ingredient) =
          filter (\<lambda>p. fst p \<noteq> e_id inst) (links d Ingredient)" by simp
    show ?thesis using s e sl(2) f unfolding l by simp
  qed
  have 5: "(\<exists>i. res = Inr i) \<longleftrightarrow>
        (\<forall>ts. v_tags vd = Some ts \<longrightarrow> resolvable Tag (user req) ts d) \<and>
        (\<forall>is. v_ingredients vd = Some is \<longrightarrow> resolvable Ingredient (user req) is d)"
    using update_result(1) [OF run] by (simp only: tag_ok ing_ok)
  have 6: "(\<forall>i. res \<noteq> Inr i) \<longrightarrow> res = Inl MultipleObjectsReturned"
    using update_result(2) [OF run] by blast
  have 7: "links d' Ingredient = links d Ingredient"
    if "\<exists>ts. v_tags vd = Some ts \<and> \<not> resolvable Tag (user req) ts d"
  proof -
    from that have "fst (stage Tag req inst (v_tags vd) d) \<noteq> Inr ()"
      by (simp add: tag_ok)
    from ing(2) [OF this] show ?thesis by simp
  qed
  show ?thesis
  proof (intro conjI allI impI)
    qed (use 1 2 3 4 5 6 7 in \<open>blast+\<close>)
qed

text \<open>
  The experiment of user 1 has the tag Night; a partial update with the tag Afternoon leaves
  it with the new row 4 alone, and its ingredient as it was.
\<close>

theorem update_clears_then_associates_witness:
  "v_tags patch_afternoon = Some [''Afternoon''] \<and>
   resolvable Tag (user req1) [''Afternoon''] db_sample \<and>
   v_ingredients patch_afternoon = None \<and>
   linked Tag 1 db_sample = [1] \<and>
   set (linked Tag 1 (snd (ExperimentDetailSerializer_update req1 exp1 patch_afternoon db_sample))) = {4} \<and>
   links (snd (ExperimentDetailSerializer_update req1 exp1 patch_afternoon db_sample)) Ingredient =
     links db_sample Ingredient \<and>
   (\<exists>i. fst (ExperimentDetailSerializer_update req1 exp1 patch_afternoon db_sample) = Inr i)"
proof -
  let ?run = "ExperimentDetailSerializer_update req1 exp1 patch_afternoon db_sample"
  have run: "?run = (fst ?run, snd ?run)" by simp
  have u: "user req1 = 1" "e_id exp1 = 1" by (simp_all add: req1_def exp1_def)
  have h1: "v_tags patch_afternoon = Some [''Afternoon'']" by (simp add: patch_afternoon_def)
  have h2: "resolvable Tag (user req1) [''Afternoon''] db_sample"
    by (simp add: resolvable_def db_sample_def req1_def matching_def)
  have h3: "v_ingredients patch_afternoon = None" by (simp add: patch_afternoon_def)
  have before: "linked Tag 1 db_sample = [1]" by (simp add: linked_def db_sample_def)
  have rows: "attrs (snd ?run) Tag =
      [\<lparr>a_id = 1, a_user = 1, a_name = ''Night''\<rparr>, \<lparr>a_id = 2, a_user = 1, a_name = ''BNU''\<rparr>,
       \<lparr>a_id = 3, a_user = 2, a_name = ''BNU''\<rparr>, \<lparr>a_id = 4, a_user = 1, a_name = ''Afternoon''\<rparr>]"
    by (simp add: ExperimentDetailSerializer_update_def patch_afternoon_def db_sample_def
        req1_def exp1_def related_clear_def objects_get_or_create_def related_add_def
        matching_def instance_save_def setattrs_def or_default_def Let_def)
  note t = update_clears_then_associates [OF run]
  from t have "\<forall>ts. v_tags patch_afternoon = Some ts \<and> resolvable Tag (user req1) ts db_sample \<longrightarrow>
        set (linked Tag (e_id exp1) (snd ?run)) =
          {a_id r | r. r \<in> set (attrs (snd ?run) Tag) \<and> a_user r = user req1 \<and> a_name r \<in> set ts} \<and>
        distinct (linked Tag (e_id exp1) (snd ?run)) \<and>
        (ts = [] \<longrightarrow> linked Tag (e_id exp1) (snd ?run) = []) \<and>
        filter (\<lambda>p. fst p \<noteq> e_id exp1) (links (snd ?run) Tag) =
          filter (\<lambda>p. fst p \<noteq> e_id exp1) (links db_sample Tag)"
    by (rule conjunct1 [OF conjunct2 [OF conjunct2]])
  with h1 h2 have "set (linked Tag (e_id exp1) (snd ?run)) =
          {a_id r | r. r \<in> set (attrs (snd ?run) Tag) \<and> a_user r = user req1 \<and>
             a_name r \<in> set [''Afternoon'']}"
    by blast
  also have "\<dots> = {4}" unfolding rows
  proof (intro set_eqI iffI)
    fix a assume "a \<in> {4::nat}"
    then have "a = a_id \<lparr>a_id = 4, a_user = 1, a_name = ''Afternoon''\<rparr>" by simp
    then show "a \<in> {a_id r | r. r \<in> set [\<lparr>a_id = 1, a_user = 1, a_name = ''Night''\<rparr>,
        \<lparr>a_id = 2, a_user = 1, a_name = ''BNU''\<rparr>, \<lparr>a_id = 3, a_user = 2, a_name = ''BNU''\<rparr>,
        \<lparr>a_id = 4, a_user = 1, a_name = ''Afternoon''\<rparr>] \<and> a_user r = user req1 \<and>
             a_name r \<in> set [''Afternoon'']}"
      by (intro CollectI exI [of _ "\<lparr>a_id = 4, a_user = 1, a_name = ''Afternoon''\<rparr>"]) (simp add: u)
  qed (auto simp: u)
  finally have c1: "set (linked Tag 1 (snd ?run)) = {4}" by (simp add: u)
  from t have "v_ingredients patch_afternoon = None \<longrightarrow>
        links (snd ?run) Ingredient = links db_sample Ingredient \<and>
        attrs (snd ?run) Ingredient = attrs db_sample Ingredient"
    by (rule conjunct1 [OF conjunct2])
  with h3 have c2: "links (snd ?run) Ingredient = links db_sample Ingredient" by simp
  from t have "(\<exists>i. fst ?run = Inr i) \<longleftrightarrow>
        (\<forall>ts. v_tags patch_afternoon = Some ts \<longrightarrow> resolvable Tag (user req1) ts db_sample) \<and>
        (\<forall>is. v_ingredients patch_afternoon = Some is \<longrightarrow>
            resolvable Ingredient (user req1) is db_sample)"
    by (rule conjunct1 [OF conjunct2 [OF conjunct2 [OF conjunct2 [OF conjunct2]]]])
  with h1 h2 h3 have c3: "\<exists>i. fst ?run = Inr i" by simp
  show ?thesis using h1 h2 h3 before c1 c2 c3 by simp
qed

text \<open>
  Claim C5 as stated fails where the requester owns two rows named a: the request carries
  the tag a and an empty ingredient list; the tags are cleared but a is not associated, and
  the ingredient is still associated although the ingredients field is present.
\<close>

theorem update_clears_then_associates_counterexample:
  "v_tags patch_a = Some [''a''] \<and> v_ingredients patch_a = Some [] \<and>
   fst (ExperimentDetailSerializer_update req1 exp_renamed patch_a db_renamed) =
     Inl MultipleObjectsReturned \<and>
   linked Tag 1 (snd (ExperimentDetailSerializer_update req1 exp_renamed patch_a db_renamed)) = [] \<and>
   linked Ingredient 1 (snd (ExperimentDetailSerializer_update req1 exp_renamed patch_a db_renamed)) = [1]"
  by (simp add: ExperimentDetailSerializer_update_def patch_a_def db_renamed_def exp_renamed_def
      req1_def related_clear_def objects_get_or_create_def matching_def linked_def Let_def)

section \<open>Attribute rows outlive their associations\<close>

text \<open>
  Claim C7. An update, whether it returns or raises, only appends to the tables of tags
  and ingredients: every row that existed before is still there, unchanged and in place.
  This holds for the serializer's update and for the update request of the view. In
  particular an update with an empty tag list leaves the experiment without tags and the
  table of tags as it was; clearing changes the join table only.
\<close>

theorem update_keeps_attribute_rows:
  "(\<exists>news. attrs (snd (ExperimentDetailSerializer_update req inst vd d)) m = attrs d m @ news) \<and>
   (\<exists>news. attrs (snd (ExperimentViewSet_update req pk payload d)) m = attrs d m @ news) \<and>
   (v_tags vd = Some [] \<longrightarrow>
      attrs (snd (ExperimentDetailSerializer_update req inst vd d)) Tag = attrs d Tag \<and>
      linked Tag (e_id inst) (snd (ExperimentDetailSerializer_update req inst vd d)) = []) \<and>
   attrs (related_clear m eid d) = attrs d"
proof (intro conjI impI)
  show "\<exists>news. attrs (snd (ExperimentDetailSerializer_update req inst vd d)) m = attrs d m @ news"
    by (rule update_attrs_prefix [of req inst vd d "fst (ExperimentDetailSerializer_update req inst vd d)"])
      simp
  show "\<exists>news. attrs (snd (ExperimentViewSet_update req pk payload d)) m = attrs d m @ news"
  proof (cases "get_object e_id (ExperimentViewSet_get_queryset req d) pk")
    case (Inl err)
    then show ?thesis by (simp add: ExperimentViewSet_update_def)
  next
    case (Inr i)
    then show ?thesis
      using update_attrs_prefix [of req i "update_data.truncate payload" d
          "fst (ExperimentDetailSerializer_update req i (update_data.truncate payload) d)"
          "snd (ExperimentDetailSerializer_update req i (update_data.truncate payload) d)" m]
      by (simp add: ExperimentViewSet_update_def)
  qed
  show "attrs (related_clear m eid d) = attrs d" by simp
next
  assume e: "v_tags vd = Some []"
  let ?run = "ExperimentDetailSerializer_update req inst vd d"
  have run: "?run = (fst ?run, snd ?run)" by simp
  note tag = update_tag_tables [OF run]
  show "attrs (snd ?run) Tag = attrs d Tag" using tag(2) e by (simp add: stage_def)
  show "linked Tag (e_id inst) (snd ?run) = []"
    using tag(1) e by (simp add: stage_def linked_def filter_empty_conv)
qed

text \<open>
  The experiment of user 1 has the tag Night; after an update with an empty tag list it has
  no tag, and the row Night is still in the table.
\<close>

theorem update_keeps_attribute_rows_witness:
  "v_tags patch_clear = Some [] \<and>
   linked Tag 1 db_sample = [1] \<and>
   linked Tag (e_id exp1) (snd (ExperimentDetailSerializer_update req1 exp1 patch_clear db_sample)) = [] \<and>
   \<lparr>a_id = 1, a_user = 1, a_name = ''Night''\<rparr> \<in>
     set (attrs (snd (ExperimentDetailSerializer_update req1 exp1 patch_clear db_sample)) Tag)"
proof -
  let ?run = "ExperimentDetailSerializer_update req1 exp1 patch_clear db_sample"
  have e: "v_tags patch_clear = Some []" by (simp add: patch_clear_def)
  have before: "linked Tag 1 db_sample = [1]" by (simp add: linked_def db_sample_def)
  have night: "\<lparr>a_id = 1, a_user = 1, a_name = ''Night''\<rparr> \<in> set (attrs db_sample Tag)"
    by (simp add: db_sample_def)
  from update_keeps_attribute_rows [of req1 exp1 patch_clear db_sample Tag]
  have "v_tags patch_clear = Some [] \<longrightarrow>
      attrs (snd ?run) Tag = attrs db_sample Tag \<and> linked Tag (e_id exp1) (snd ?run) = []"
    by (rule conjunct1 [OF conjunct2 [OF conjunct2]])
  with e have "attrs (snd ?run) Tag = attrs db_sample Tag" "linked Tag (e_id exp1) (snd ?run) = []"
    by simp_all
  with e before night show ?thesis by simp
qed

section \<open>The owner of an experiment\<close>

text \<open>
  Claim C8. A create request appends one experiment whose owner is the requester, and that
  row is what the request returns. An update request, whatever its body, returns an instance
  with the requester as owner and the requested key, leaves every row with another key as
  it was, and does the same with or without a \<open>user\<close> field in its body. Where identifiers
  are a primary key (distinct within the table, as in every database that requests lead
  to, \<open>reachable_wf\<close>), it leaves the owner and the identifier of every row as they were,
  and likewise every field that the body does not name.
\<close>

theorem owner_set_at_creation_and_kept:
  "(\<exists>e. experiments (snd (ExperimentViewSet_perform_create req cd d)) = experiments d @ [e] \<and>
        e_user e = user req \<and>
        (\<forall>e'. fst (ExperimentViewSet_perform_create req cd d) = Inr e' \<longrightarrow> e' = e)) \<and>
   (distinct (map e_id (experiments d)) \<longrightarrow>
      map e_user (experiments (snd (ExperimentViewSet_update req pk payload d))) =
        map e_user (experiments d) \<and>
      map e_id (experiments (snd (ExperimentViewSet_update req pk payload d))) =
        map e_id (experiments d) \<and>
      (v_title payload = None \<longrightarrow>
         map e_title (experiments (snd (ExperimentViewSet_update req pk payload d))) =
           map e_title (experiments d)) \<and>
      (v_time_minutes payload = None \<longrightarrow>
         map e_time_minutes (experiments (snd (ExperimentViewSet_update req pk payload d))) =
           map e_time_minutes (experiments d)) \<and>
      (v_price payload = None \<longrightarrow>
         map e_price (experiments (snd (ExperimentViewSet_update req pk payload d))) =
           map e_price (experiments d)) \<and>
      (v_link payload = None \<longrightarrow>
         map e_link (experiments (snd (ExperimentViewSet_update req pk payload d))) =
           map e_link (experiments d)) \<and>
      (v_description payload = None \<longrightarrow>
         map e_description (experiments (snd (ExperimentViewSet_update req pk payload d))) =
           map e_description (experiments d))) \<and>
   filter (\<lambda>r. e_id r \<noteq> pk) (experiments (snd (ExperimentViewSet_update req pk payload d))) =
     filter (\<lambda>r. e_id r \<noteq> pk) (experiments d) \<and>
   (\<forall>i. fst (ExperimentViewSet_update req pk payload d) = Inr i \<longrightarrow>
      e_user i = user req \<and> e_id i = pk) \<and>
   ExperimentViewSet_update req pk (payload\<lparr>p_user := x\<rparr>) d =
     ExperimentViewSet_update req pk payload d"
proof -
  let ?d' = "snd (ExperimentViewSet_update req pk payload d)"
  let ?vd = "update_data.truncate payload"
  have create: "\<exists>e. experiments (snd (ExperimentViewSet_perform_create req cd d)) = experiments d @ [e] \<and>
        e_user e = user req \<and>
        (\<forall>e'. fst (ExperimentViewSet_perform_create req cd d) = Inr e' \<longrightarrow> e' = e)"
    unfolding ExperimentViewSet_perform_create_def
    by (intro exI [of _ "fst (Experiment_objects_create (user req) cd d)"])
      (simp add: create_experiments)
  have maps: "map g (experiments ?d') = map g (experiments d)"
    if dist: "distinct (map e_id (experiments d))"
      and g: "\<And>inst. g (setattrs ?vd inst) = g inst" for g :: "Experiment \<Rightarrow> 'b"
    using view_update_experiments [of req pk payload d]
  proof (elim disjE exE conjE)
    fix inst
    assume inst: "inst \<in> set (experiments d)" "e_id inst = pk"
      and e: "experiments ?d' =
        map (\<lambda>r. if e_id r = pk then setattrs ?vd inst else r) (experiments d)"
    have "experiments ?d' =
        map (\<lambda>r. if e_id r = e_id inst then setattrs ?vd inst else r) (experiments d)"
      using e inst(2) by simp
    then show ?thesis
      using map_replace_by_key [OF inst(1) dist, of g "setattrs ?vd inst"] g [of inst] by simp
  qed simp
  have others: "filter (\<lambda>r. e_id r \<noteq> pk) (experiments ?d') =
      filter (\<lambda>r. e_id r \<noteq> pk) (experiments d)"
    using view_update_experiments [of req pk payload d]
    by (elim disjE exE conjE) (simp_all add: filter_replace_by_key)
  have result: "e_user i = user req \<and> e_id i = pk"
    if "fst (ExperimentViewSet_update req pk payload d) = Inr i" for i
  proof (cases "get_object e_id (ExperimentViewSet_get_queryset req d) pk")
    case (Inl err)
    with that show ?thesis by (simp add: ExperimentViewSet_update_def)
  next
    case (Inr inst)
    from get_object_Inr [OF Inr] have inst: "e_user inst = user req" "e_id inst = pk" by simp_all
    let ?run = "ExperimentDetailSerializer_update req inst ?vd d"
    have "fst ?run = Inr i" using that Inr by (simp add: ExperimentViewSet_update_def)
    moreover have "?run = (fst ?run, snd ?run)" by simp
    ultimately have "i = setattrs ?vd inst"
      using update_result(3) [of req inst ?vd d "fst ?run" "snd ?run" i] by blast
    with inst show ?thesis by simp
  qed
  have user_field: "ExperimentViewSet_update req pk (payload\<lparr>p_user := x\<rparr>) d =
     ExperimentViewSet_update req pk payload d"
    by (simp add: ExperimentViewSet_update_def split: sum.splits)
  show ?thesis
  proof (intro conjI impI allI)
    show "\<exists>e. experiments (snd (ExperimentViewSet_perform_create req cd d)) = experiments d @ [e] \<and>
        e_user e = user req \<and>
        (\<forall>e'. fst (ExperimentViewSet_perform_create req cd d) = Inr e' \<longrightarrow> e' = e)"
      by (rule create)
    show "filter (\<lambda>r. e_id r \<noteq> pk) (experiments ?d') = filter (\<lambda>r. e_id r \<noteq> pk) (experiments d)"
      by (rule others)
    show "ExperimentViewSet_update req pk (payload\<lparr>p_user := x\<rparr>) d =
        ExperimentViewSet_update req pk payload d"
      by (rule user_field)
    show "e_user i = user req" if "fst (ExperimentViewSet_update req pk payload d) = Inr i" for i
      using result [OF that] by simp
    show "e_id i = pk" if "fst (ExperimentViewSet_update req pk payload d) = Inr i" for i
      using result [OF that] by simp
  next
    assume dist: "distinct (map e_id (experiments d))"
    show "map e_user (experiments ?d') = map e_user (experiments d)"
      using dist by (rule maps) simp
    show "map e_id (experiments ?d') = map e_id (experiments d)"
      using dist by (rule maps) simp
    show "map e_title (experiments ?d') = map e_title (experiments d)"
      if "v_title payload = None" using dist by (rule maps) (simp add: that)
    show "map e_time_minutes (experiments ?d') = map e_time_minutes (experiments d)"
      if "v_time_minutes payload = None" using dist by (rule maps) (simp add: that)
    show "map e_price (experiments ?d') = map e_price (experiments d)"
      if "v_price payload = None" using dist by (rule maps) (simp add: that)
    show "map e_link (experiments ?d') = map e_link (experiments d)"
      if "v_link payload = None" using dist by (rule maps) (simp add: that)
    show "map e_description (experiments ?d') = map e_description (experiments d)"
      if "v_description payload = None" using dist by (rule maps) (simp add: that)
  qed
qed

text \<open>
  User 1 updates the title of experiment 1 and names user 2 as owner in the body: the title
  changes; the owners and the link fields stay.
\<close>

theorem owner_set_at_creation_and_kept_witness:
  "distinct (map e_id (experiments db_sample)) \<and>
   v_link payload_title = None \<and> p_user payload_title = Some 2 \<and>
   map e_user (experiments db_sample) = [1, 2] \<and>
   map e_user (experiments (snd (ExperimentViewSet_update req1 1 payload_title db_sample))) = [1, 2] \<and>
   map e_link (experiments (snd (ExperimentViewSet_update req1 1 payload_title db_sample))) =
     [''link'', []] \<and>
   map e_title (experiments (snd (ExperimentViewSet_update req1 1 payload_title db_sample))) =
     [''New title'', ''Other'']"
proof -
  let ?d' = "snd (ExperimentViewSet_update req1 1 payload_title db_sample)"
  have dist: "distinct (map e_id (experiments db_sample))" by (simp add: db_sample_def)
  have p: "v_link payload_title = None" "p_user payload_title = Some 2"
    by (simp_all add: payload_title_def)
  have before: "map e_user (experiments db_sample) = [1, 2]"
    "map e_link (experiments db_sample) = [''link'', []]"
    by (simp_all add: db_sample_def)
  have title: "map e_title (experiments ?d') = [''New title'', ''Other'']"
    by (simp add: ExperimentViewSet_update_def ExperimentViewSet_get_queryset_def get_object_def
        ExperimentDetailSerializer_update_def update_data.truncate_def payload_title_def
        db_sample_def req1_def instance_save_def setattrs_def or_default_def Let_def)
  from owner_set_at_creation_and_kept [of req1 _ db_sample 1 payload_title]
  have "distinct (map e_id (experiments db_sample)) \<longrightarrow>
      map e_user (experiments ?d') = map e_user (experiments db_sample) \<and>
      map e_id (experiments ?d') = map e_id (experiments db_sample) \<and>
      (v_title payload_title = None \<longrightarrow>
         map e_title (experiments ?d') = map e_title (experiments db_sample)) \<and>
      (v_time_minutes payload_title = None \<longrightarrow>
         map e_time_minutes (experiments ?d') = map e_time_minutes (experiments db_sample)) \<and>
      (v_price payload_title = None \<longrightarrow>
         map e_price (experiments ?d') = map e_price (experiments db_sample)) \<and>
      (v_link payload_title = None \<longrightarrow>
         map e_link (experiments ?d') = map e_link (experiments db_sample)) \<and>
      (v_description payload_title = None \<longrightarrow>
         map e_description (experiments ?d') = map e_description (experiments db_sample))"
    by (rule conjunct1 [OF conjunct2])
  with dist p(1) have "map e_user (experiments ?d') = map e_user (experiments db_sample)"
    "map e_link (experiments ?d') = map e_link (experiments db_sample)"
    by simp_all
  with dist p before title show ?thesis by simp
qed

section \<open>Records of another user\<close>

text \<open>
  Claim C3. Let the requester be another user than \<open>a\<close>. No record of \<open>a\<close> is in the
  requester's list of experiments, tags or ingredients, and a detail request never returns
  one. Where \<open>a\<close> owns the record with key \<open>pk\<close> (keys being distinct), the requester's
  detail, update and delete requests on \<open>pk\<close> answer 404 and leave the database as it is,
  exactly as they do when no record has the key \<open>pk\<close>. The attribute views offer update and
  delete only, and these behave in the same way.
\<close>

theorem ownership_isolation:
  assumes other: "user req \<noteq> a"
  shows "(\<forall>r\<in>set (ExperimentViewSet_list req d). e_user r \<noteq> a) \<and>
    (\<forall>r\<in>set (BaseExperimentAttrViewSet_list m req d). a_user r \<noteq> a) \<and>
    (\<forall>r. ExperimentViewSet_retrieve req pk d = Inr r \<longrightarrow> e_user r \<noteq> a) \<and>
    ((distinct (map e_id (experiments d)) \<and>
      (\<exists>r\<in>set (experiments d). e_id r = pk \<and> e_user r = a)) \<or>
     pk \<notin> e_id ` set (experiments d) \<longrightarrow>
       ExperimentViewSet_retrieve req pk d = Inl Http404 \<and>
       ExperimentViewSet_update req pk payload d = (Inl Http404, d) \<and>
       ExperimentViewSet_destroy req pk d = (Inl Http404, d)) \<and>
    ((distinct (map a_id (attrs d m)) \<and>
      (\<exists>r\<in>set (attrs d m). a_id r = pk \<and> a_user r = a)) \<or>
     pk \<notin> a_id ` set (attrs d m) \<longrightarrow>
       BaseExperimentAttrViewSet_update m req pk name d = (Inl Http404, d) \<and>
       BaseExperimentAttrViewSet_destroy m req pk d = (Inl Http404, d))"
proof (intro conjI ballI allI impI)
  fix r assume "r \<in> set (ExperimentViewSet_list req d)"
  then show "e_user r \<noteq> a" using other by (simp add: ExperimentViewSet_list_def)
next
  fix r assume "r \<in> set (BaseExperimentAttrViewSet_list m req d)"
  then show "a_user r \<noteq> a" using other by (simp add: BaseExperimentAttrViewSet_list_def)
next
  fix r assume "ExperimentViewSet_retrieve req pk d = Inr r"
  then have "r \<in> set (ExperimentViewSet_get_queryset req d)"
    unfolding ExperimentViewSet_retrieve_def by (rule get_object_Inr [THEN conjunct1])
  then show "e_user r \<noteq> a" using other by simp
next
  assume h: "(distinct (map e_id (experiments d)) \<and>
      (\<exists>r\<in>set (experiments d). e_id r = pk \<and> e_user r = a)) \<or>
     pk \<notin> e_id ` set (experiments d)"
  have none: "e_id r \<noteq> pk" if "r \<in> set (ExperimentViewSet_get_queryset req d)" for r
  proof
    assume k: "e_id r = pk"
    from that have r: "r \<in> set (experiments d)" "e_user r = user req" by simp_all
    from h show False
    proof
      assume "distinct (map e_id (experiments d)) \<and>
        (\<exists>r\<in>set (experiments d). e_id r = pk \<and> e_user r = a)"
      then obtain r' where d: "distinct (map e_id (experiments d))"
        and r': "r' \<in> set (experiments d)" "e_id r' = pk" "e_user r' = a" by blast
      from d r(1) r'(1) k r'(2) have "r = r'" by (intro distinct_key_eq [OF d]) simp_all
      with r(2) r'(3) other show False by simp
    next
      assume "pk \<notin> e_id ` set (experiments d)"
      with r(1) k show False by blast
    qed
  qed
  have g: "get_object e_id (ExperimentViewSet_get_queryset req d) pk = Inl Http404"
    by (rule get_object_404) (rule none)
  show "ExperimentViewSet_retrieve req pk d = Inl Http404"
    by (simp add: ExperimentViewSet_retrieve_def g)
  show "ExperimentViewSet_update req pk payload d = (Inl Http404, d)"
    by (simp add: ExperimentViewSet_update_def g)
  show "ExperimentViewSet_destroy req pk d = (Inl Http404, d)"
    by (simp add: ExperimentViewSet_destroy_def g)
next
  assume h: "(distinct (map a_id (attrs d m)) \<and>
      (\<exists>r\<in>set (attrs d m). a_id r = pk \<and> a_user r = a)) \<or>
     pk \<notin> a_id ` set (attrs d m)"
  have none: "a_id r \<noteq> pk" if "r \<in> set (BaseExperimentAttrViewSet_get_queryset m req d)" for r
  proof
    assume k: "a_id r = pk"
    from that have r: "r \<in> set (attrs d m)" "a_user r = user req" by simp_all
    from h show False
    proof
      assume "distinct (map a_id (attrs d m)) \<and>
        (\<exists>r\<in>set (attrs d m). a_id r = pk \<and> a_user r = a)"
      then obtain r' where d: "distinct (map a_id (attrs d m))"
        and r': "r' \<in> set (attrs d m)" "a_id r' = pk" "a_user r' = a" by blast
      from d r(1) r'(1) k r'(2) have "r = r'" by (intro distinct_key_eq [OF d]) simp_all
      with r(2) r'(3) other show False by simp
    next
      assume "pk \<notin> a_id ` set (attrs d m)"
      with r(1) k show False by blast
    qed
  qed
  have g: "get_object a_id (BaseExperimentAttrViewSet_get_queryset m req d) pk = Inl Http404"
    by (rule get_object_404) (rule none)
  show "BaseExperimentAttrViewSet_update m req pk name d = (Inl Http404, d)"
    by (simp add: BaseExperimentAttrViewSet_update_def g)
  show "BaseExperimentAttrViewSet_destroy m req pk d = (Inl Http404, d)"
    by (simp add: BaseExperimentAttrViewSet_destroy_def g)
qed

text \<open>
  Experiment 1 and tag 1 belong to user 1, who can read the experiment; user 2 gets 404 on
  each request, and the database stays as it is.
\<close>

theorem ownership_isolation_witness:
  "user req2 \<noteq> 1 \<and>
   distinct (map e_id (experiments db_sample)) \<and>
   ExperimentViewSet_retrieve req1 1 db_sample = Inr exp1 \<and>
   ExperimentViewSet_retrieve req2 1 db_sample = Inl Http404 \<and>
   ExperimentViewSet_update req2 1 payload_title db_sample = (Inl Http404, db_sample) \<and>
   ExperimentViewSet_destroy req2 1 db_sample = (Inl Http404, db_sample) \<and>
   BaseExperimentAttrViewSet_update Tag req2 1 (Some ''mine'') db_sample = (Inl Http404, db_sample) \<and>
   BaseExperimentAttrViewSet_destroy Tag req2 1 db_sample = (Inl Http404, db_sample)"
proof -
  have other: "user req2 \<noteq> 1" by (simp add: req2_def)
  have owner: "ExperimentViewSet_retrieve req1 1 db_sample = Inr exp1"
    by (simp add: ExperimentViewSet_retrieve_def ExperimentViewSet_get_queryset_def
        get_object_def db_sample_def req1_def exp1_def)
  have de: "distinct (map e_id (experiments db_sample))" by (simp add: db_sample_def)
  have he: "(distinct (map e_id (experiments db_sample)) \<and>
      (\<exists>r\<in>set (experiments db_sample). e_id r = 1 \<and> e_user r = 1)) \<or>
     1 \<notin> e_id ` set (experiments db_sample)"
    by (simp add: db_sample_def)
  have ha: "(distinct (map a_id (attrs db_sample Tag)) \<and>
      (\<exists>r\<in>set (attrs db_sample Tag). a_id r = 1 \<and> a_user r = 1)) \<or>
     1 \<notin> a_id ` set (attrs db_sample Tag)"
    by (simp add: db_sample_def)
  note t = ownership_isolation [OF other, of db_sample Tag 1 payload_title "Some ''mine''"]
  from t have "(distinct (map e_id (experiments db_sample)) \<and>
      (\<exists>r\<in>set (experiments db_sample). e_id r = 1 \<and> e_user r = 1)) \<or>
     1 \<notin> e_id ` set (experiments db_sample) \<longrightarrow>
       ExperimentViewSet_retrieve req2 1 db_sample = Inl Http404 \<and>
       ExperimentViewSet_update req2 1 payload_title db_sample = (Inl Http404, db_sample) \<and>
       ExperimentViewSet_destroy req2 1 db_sample = (Inl Http404, db_sample)"
    by (rule conjunct1 [OF conjunct2 [OF conjunct2 [OF conjunct2]]])
  with he have e: "ExperimentViewSet_retrieve req2 1 db_sample = Inl Http404 \<and>
       ExperimentViewSet_update req2 1 payload_title db_sample = (Inl Http404, db_sample) \<and>
       ExperimentViewSet_destroy req2 1 db_sample = (Inl Http404, db_sample)"
    by (rule rev_mp)
  from t have "(distinct (map a_id (attrs db_sample Tag)) \<and>
      (\<exists>r\<in>set (attrs db_sample Tag). a_id r = 1 \<and> a_user r = 1)) \<or>
     1 \<notin> a_id ` set (attrs db_sample Tag) \<longrightarrow>
       BaseExperimentAttrViewSet_update Tag req2 1 (Some ''mine'') db_sample = (Inl Http404, db_sample) \<and>
       BaseExperimentAttrViewSet_destroy Tag req2 1 db_sample = (Inl Http404, db_sample)"
    by (rule conjunct2 [OF conjunct2 [OF conjunct2 [OF conjunct2]]])
  with ha have a: "BaseExperimentAttrViewSet_update Tag req2 1 (Some ''mine'') db_sample = (Inl Http404, db_sample) \<and>
       BaseExperimentAttrViewSet_destroy Tag req2 1 db_sample = (Inl Http404, db_sample)"
    by (rule rev_mp)
  from other de owner e a show ?thesis by simp
qed

section \<open>The order of the lists\<close>

text \<open>
  Claim C9. The list of experiments holds the requester's experiments, each once, ordered
  by descending identifier; the list of tags and the list of ingredients hold the
  requester's attributes, each once, ordered by descending name. Identifiers grow with
  creation: where every identifier is below the sequence, the experiment that a create
  request inserts is the first of the requester's list afterwards, before the former list.
\<close>

theorem lists_are_ordered:
  "sorted_wrt (\<lambda>r s. e_id s \<le> e_id r) (ExperimentViewSet_list req d) \<and>
   set (ExperimentViewSet_list req d) = {r \<in> set (experiments d). e_user r = user req} \<and>
   length (ExperimentViewSet_list req d) =
     length (filter (\<lambda>r. e_user r = user req) (experiments d)) \<and>
   sorted_wrt (\<lambda>r s. a_name s \<le> a_name r) (BaseExperimentAttrViewSet_list m req d) \<and>
   set (BaseExperimentAttrViewSet_list m req d) = {r \<in> set (attrs d m). a_user r = user req} \<and>
   length (BaseExperimentAttrViewSet_list m req d) =
     length (filter (\<lambda>r. a_user r = user req) (attrs d m)) \<and>
   (list_all (\<lambda>r. e_id r < experiment_seq d) (experiments d) \<longrightarrow>
      ExperimentViewSet_list req (snd (ExperimentViewSet_perform_create req cd d)) =
        fst (Experiment_objects_create (user req) cd d) # ExperimentViewSet_list req d)"
proof (intro conjI impI)
  show "sorted_wrt (\<lambda>r s. e_id s \<le> e_id r) (ExperimentViewSet_list req d)"
    unfolding ExperimentViewSet_list_def ExperimentViewSet_get_queryset_def
    by (rule sorted_wrt_rev_sort_key)
  show "sorted_wrt (\<lambda>r s. a_name s \<le> a_name r) (BaseExperimentAttrViewSet_list m req d)"
    unfolding BaseExperimentAttrViewSet_list_def BaseExperimentAttrViewSet_get_queryset_def
    by (rule sorted_wrt_rev_sort_key)
  show "set (ExperimentViewSet_list req d) = {r \<in> set (experiments d). e_user r = user req}"
    by (simp add: ExperimentViewSet_list_def)
  show "set (BaseExperimentAttrViewSet_list m req d) = {r \<in> set (attrs d m). a_user r = user req}"
    by (simp add: BaseExperimentAttrViewSet_list_def)
  show "length (ExperimentViewSet_list req d) =
     length (filter (\<lambda>r. e_user r = user req) (experiments d))"
    by (simp add: ExperimentViewSet_list_def ExperimentViewSet_get_queryset_def)
  show "length (BaseExperimentAttrViewSet_list m req d) =
     length (filter (\<lambda>r. a_user r = user req) (attrs d m))"
    by (simp add: BaseExperimentAttrViewSet_list_def BaseExperimentAttrViewSet_get_queryset_def)
next
  assume below: "list_all (\<lambda>r. e_id r < experiment_seq d) (experiments d)"
  let ?e = "fst (Experiment_objects_create (user req) cd d)"
  let ?mine = "filter (\<lambda>r. e_user r = user req) (experiments d)"
  have "experiments (snd (ExperimentViewSet_perform_create req cd d)) = experiments d @ [?e]"
    by (simp add: ExperimentViewSet_perform_create_def create_experiments)
  then have "ExperimentViewSet_list req (snd (ExperimentViewSet_perform_create req cd d)) =
      rev (sort_key e_id (?mine @ [?e]))"
    by (simp add: ExperimentViewSet_list_def ExperimentViewSet_get_queryset_def)
  also have "sort_key e_id (?mine @ [?e]) = sort_key e_id ?mine @ [?e]"
  proof (rule sort_key_snoc)
    fix y assume "y \<in> set ?mine"
    then have "e_id y < experiment_seq d" using below by (simp add: list_all_iff)
    then show "e_id y \<le> e_id ?e" by simp
  qed
  finally show "ExperimentViewSet_list req (snd (ExperimentViewSet_perform_create req cd d)) =
        ?e # ExperimentViewSet_list req d"
    by (simp add: ExperimentViewSet_list_def ExperimentViewSet_get_queryset_def)
qed

text \<open>
  User 1 has experiment 1; after a create request the list is 3, 1. The tags of user 1 are
  listed as Night, BNU.
\<close>

theorem lists_are_ordered_witness:
  "list_all (\<lambda>r. e_id r < experiment_seq db_sample) (experiments db_sample) \<and>
   map e_id (ExperimentViewSet_list req1 db_sample) = [1] \<and>
   map e_id (ExperimentViewSet_list req1
      (snd (ExperimentViewSet_perform_create req1 create_sample db_sample))) = [3, 1] \<and>
   map a_name (BaseExperimentAttrViewSet_list Tag req1 db_sample) = [''Night'', ''BNU'']"
proof -
  have below: "list_all (\<lambda>r. e_id r < experiment_seq db_sample) (experiments db_sample)"
    by (simp add: db_sample_def)
  have l: "map e_id (ExperimentViewSet_list req1 db_sample) = [1]"
    by (simp add: ExperimentViewSet_list_def ExperimentViewSet_get_queryset_def db_sample_def
        req1_def)
  have t: "map a_name (BaseExperimentAttrViewSet_list Tag req1 db_sample) = [''Night'', ''BNU'']"
    by (simp add: BaseExperimentAttrViewSet_list_def BaseExperimentAttrViewSet_get_queryset_def
        db_sample_def req1_def)
  have n: "e_id (fst (Experiment_objects_create (user req1) create_sample db_sample)) = 3"
    by (simp add: db_sample_def)
  from lists_are_ordered [of req1 db_sample Tag create_sample]
  have "list_all (\<lambda>r. e_id r < experiment_seq db_sample) (experiments db_sample) \<longrightarrow>
      ExperimentViewSet_list req1 (snd (ExperimentViewSet_perform_create req1 create_sample db_sample)) =
        fst (Experiment_objects_create (user req1) create_sample db_sample) #
        ExperimentViewSet_list req1 db_sample"
    by (elim conjE)
  with below have "ExperimentViewSet_list req1
      (snd (ExperimentViewSet_perform_create req1 create_sample db_sample)) =
        fst (Experiment_objects_create (user req1) create_sample db_sample) #
        ExperimentViewSet_list req1 db_sample"
    by (rule rev_mp)
  then have "map e_id (ExperimentViewSet_list req1
      (snd (ExperimentViewSet_perform_create req1 create_sample db_sample))) = [3, 1]"
    using n l by simp
  with below l t show ?thesis by simp
qed

section \<open>The command that waits for the database: termination and result\<close>

lemma wait_loop_skip:
  "(\<And>j. j < k \<Longrightarrow> op_error (check (i + j))) \<Longrightarrow>
   wait_loop check i c = wait_loop check (i + k) ((unavailable ^^ k) c)"
proof (induction k arbitrary: i c)
  case 0
  then show ?case by simp
next
  case (Suc k)
  have "op_error (check i)" using Suc.prems [of 0] by simp
  then have "wait_loop check i c = wait_loop check (Suc i) (unavailable c)"
    by (subst wait_loop.simps) (auto simp: op_error_def)
  also have "\<dots> = wait_loop check (Suc i + k) ((unavailable ^^ k) (unavailable c))"
  proof (rule Suc.IH)
    fix j assume "j < k"
    then show "op_error (check (Suc i + j))" using Suc.prems [of "Suc j"] by simp
  qed
  finally show ?case by (simp add: funpow_swap1)
qed

lemma wait_loop_Some:
  assumes "wait_loop check i c = Some y"
  shows "\<exists>k. \<not> op_error (check (i + k)) \<and> (\<forall>j<k. op_error (check (i + j)))"
proof (rule wait_loop.raw_induct
    [where P = "\<lambda>check i c y. \<exists>k. \<not> op_error (check (i + k)) \<and> (\<forall>j<k. op_error (check (i + j)))",
     OF _ assms])
  fix wl check i c y
  assume IH: "\<And>check i c y. wl check i c = Some y \<Longrightarrow>
     \<exists>k. \<not> op_error (check (i + k)) \<and> (\<forall>j<k. op_error (check (i + j)))"
    and body: "(case check i of
        Returns \<Rightarrow> Some (Inr c)
      | Psychopg20pError \<Rightarrow> wl check (Suc i) (unavailable c)
      | OperationalError \<Rightarrow> wl check (Suc i) (unavailable c)
      | OtherException \<Rightarrow> Some (Inl OtherException)) = Some y"
  show "\<exists>k. \<not> op_error (check (i + k)) \<and> (\<forall>j<k. op_error (check (i + j)))"
  proof (cases "op_error (check i)")
    case False
    then show ?thesis by (intro exI [of _ 0]) simp
  next
    case True
    then have "wl check (Suc i) (unavailable c) = Some y"
      using body by (auto simp: op_error_def)
    then obtain k where k: "\<not> op_error (check (Suc i + k))"
      "\<forall>j<k. op_error (check (Suc i + j))" using IH by blast
    show ?thesis
    proof (intro exI [of _ "Suc k"] conjI allI impI)
      show "\<not> op_error (check (i + Suc k))" using k(1) by simp
    next
      fix j assume "j < Suc k"
      then show "op_error (check (i + j))"
        using True k(2) by (cases j) auto
    qed
  qed
qed

lemma unavailable_funpow:
  "(unavailable ^^ k) c =
     \<lparr>stdout = stdout c @ replicate k ''Databse unvailable, waiting 1 second...'',
      slept = slept c + k\<rparr>"
proof (induction k)
  case 0 show ?case by simp
next
  case (Suc k)
  then show ?case by (simp add: unavailable_def replicate_append_same)
qed


lemma wait_loop_at:
  assumes "\<And>j. j < k \<Longrightarrow> op_error (check j)" and "\<not> op_error (check k)"
  shows "wait_loop check 0 c =
     Some (if check k = Returns then Inr ((unavailable ^^ k) c) else Inl OtherException)"
proof -
  have "wait_loop check 0 c = wait_loop check (0 + k) ((unavailable ^^ k) c)"
    by (rule wait_loop_skip) (simp add: assms(1))
  also have "\<dots> = Some (if check k = Returns then Inr ((unavailable ^^ k) c) else Inl OtherException)"
    using assms(2) by (subst wait_loop.simps) (cases "check k"; simp add: op_error_def)
  finally show ?thesis .
qed

lemma Command_handle_at:
  assumes "\<And>j. j < k \<Longrightarrow> op_error (check j)" and "\<not> op_error (check k)"
  shows "Command_handle check =
     Some (if check k = Returns then Inr (console_after k) else Inl OtherException)"
proof -
  have "wait_loop check 0 \<lparr>stdout = [''wait for database...''], slept = 0\<rparr> =
     Some (if check k = Returns
           then Inr ((unavailable ^^ k) \<lparr>stdout = [''wait for database...''], slept = 0\<rparr>)
           else Inl OtherException)"
    using assms by (rule wait_loop_at)
  then show ?thesis
    by (simp add: Command_handle_def unavailable_funpow console_after_def)
qed

lemma Command_handle_None:
  assumes "\<And>k. op_error (check k)"
  shows "Command_handle check = None"
proof -
  have "wait_loop check 0 c = None" for c
  proof (cases "wait_loop check 0 c")
    case (Some y)
    from wait_loop_Some [OF this] show ?thesis using assms by simp
  qed simp
  then show ?thesis by (simp add: Command_handle_def)
qed

lemma first_stop:
  fixes check :: "nat \<Rightarrow> check_outcome"
  assumes "\<not> op_error (check n)"
  shows "\<exists>k. (\<forall>j<k. op_error (check j)) \<and> \<not> op_error (check k)"
proof -
  define k where "k = (LEAST k. \<not> op_error (check k))"
  have "\<not> op_error (check k)" unfolding k_def
    using assms by (rule LeastI [of "\<lambda>k. \<not> op_error (check k)"])
  moreover have "\<forall>j<k. op_error (check j)"
    unfolding k_def using not_less_Least by blast
  ultimately show ?thesis by blast
qed

lemma first_stop_unique:
  assumes "\<forall>j<k. op_error (check j)" "\<not> op_error (check k)"
    and "\<forall>j<k'. op_error (check j)" "\<not> op_error (check k')"
  shows "k = (k'::nat)"
  using assms by (meson nat_neq_iff)

lemma Command_handle_Inl:
  "Command_handle check = Some (Inl e) \<Longrightarrow> e = OtherException"
proof (cases "\<exists>n. \<not> op_error (check n)")
  case True
  then obtain k where "\<forall>j<k. op_error (check j)" "\<not> op_error (check k)"
    using first_stop by blast
  then have "Command_handle check =
     Some (if check k = Returns then Inr (console_after k) else Inl OtherException)"
    by (intro Command_handle_at) auto
  moreover assume "Command_handle check = Some (Inl e)"
  ultimately show ?thesis by (simp split: if_splits)
next
  case False
  then have "Command_handle check = None" by (intro Command_handle_None) simp
  moreover assume "Command_handle check = Some (Inl e)"
  ultimately show ?thesis by simp
qed

lemma Command_handle_Inr:
  "Command_handle check = Some (Inr c) \<longleftrightarrow>
     (\<exists>k. check k = Returns \<and> (\<forall>j<k. op_error (check j)) \<and> c = console_after k)"
proof
  assume r: "Command_handle check = Some (Inr c)"
  have "\<exists>n. \<not> op_error (check n)"
  proof (rule ccontr)
    assume "\<not> ?thesis"
    then have "Command_handle check = None" by (intro Command_handle_None) simp
    with r show False by simp
  qed
  then obtain k where k: "\<forall>j<k. op_error (check j)" "\<not> op_error (check k)"
    using first_stop by blast
  then have "Command_handle check =
     Some (if check k = Returns then Inr (console_after k) else Inl OtherException)"
    by (intro Command_handle_at) auto
  with r have "check k = Returns \<and> c = console_after k" by (simp split: if_splits)
  with k(1) show "\<exists>k. check k = Returns \<and> (\<forall>j<k. op_error (check j)) \<and> c = console_after k"
    by blast
next
  assume "\<exists>k. check k = Returns \<and> (\<forall>j<k. op_error (check j)) \<and> c = console_after k"
  then obtain k where k: "check k = Returns" "\<forall>j<k. op_error (check j)" "c = console_after k"
    by blast
  have "\<not> op_error (check k)" using k(1) by (simp add: op_error_def)
  with k(2) have "Command_handle check =
     Some (if check k = Returns then Inr (console_after k) else Inl OtherException)"
    by (intro Command_handle_at) auto
  then show "Command_handle check = Some (Inr c)" using k(1,3) by simp
qed

lemma Command_handle_terminates:
  assumes "check n = Returns"
  shows "Command_handle check \<noteq> None"
proof -
  have "\<not> op_error (check n)" using assms by (simp add: op_error_def)
  then obtain k where "\<forall>j<k. op_error (check j)" "\<not> op_error (check k)"
    using first_stop by blast
  then have "Command_handle check =
     Some (if check k = Returns then Inr (console_after k) else Inl OtherException)"
    by (intro Command_handle_at) auto
  then show ?thesis by simp
qed

text \<open>
  Claim C10. The command never lets one of the two operational errors out: each is caught,
  answered with one line and one second of sleep, and the check is tried again. It returns
  normally exactly when a check returns after operational errors only, with the console
  \<open>console_after k\<close> for \<open>k\<close> failures; and when some check returns, the command ends.
\<close>

theorem wait_for_db_returns:
  "Command_handle check \<noteq> Some (Inl Psychopg20pError) \<and>
   Command_handle check \<noteq> Some (Inl OperationalError) \<and>
   (\<forall>c. Command_handle check = Some (Inr c) \<longleftrightarrow>
      (\<exists>k. check k = Returns \<and> (\<forall>j<k. op_error (check j)) \<and> c = console_after k)) \<and>
   ((\<exists>k. check k = Returns) \<longrightarrow> Command_handle check \<noteq> None)"
proof (intro conjI allI impI)
  show "Command_handle check \<noteq> Some (Inl Psychopg20pError)"
    using Command_handle_Inl [of check Psychopg20pError] by auto
  show "Command_handle check \<noteq> Some (Inl OperationalError)"
    using Command_handle_Inl [of check OperationalError] by auto
  show "Command_handle check = Some (Inr c) \<longleftrightarrow>
      (\<exists>k. check k = Returns \<and> (\<forall>j<k. op_error (check j)) \<and> c = console_after k)" for c
    by (rule Command_handle_Inr)
  show "Command_handle check \<noteq> None" if "\<exists>k. check k = Returns"
    using that Command_handle_terminates by blast
qed

theorem wait_for_db_returns_witness:
  "Command_handle (\<lambda>i. if i < 2 then OperationalError else Returns) =
     Some (Inr \<lparr>stdout = [''wait for database...'',
                          ''Databse unvailable, waiting 1 second...'',
                          ''Databse unvailable, waiting 1 second...'',
                          ''Database available''],
                slept = 2\<rparr>) \<and>
   Command_handle (\<lambda>i. if i < 2 then OperationalError else Returns) \<noteq> None"
proof -
  let ?check = "\<lambda>i::nat. if i < 2 then OperationalError else Returns"
  let ?c = "\<lparr>stdout = [''wait for database...'',
                          ''Databse unvailable, waiting 1 second...'',
                          ''Databse unvailable, waiting 1 second...'',
                          ''Database available''],
                slept = 2\<rparr>"
  have c: "?c = console_after 2" by (simp add: console_after_def numeral_2_eq_2)
  have "?check 2 = Returns \<and> (\<forall>j<2. op_error (?check j)) \<and> ?c = console_after 2"
    unfolding c by (simp add: op_error_def)
  then have 1: "\<exists>k. ?check k = Returns \<and> (\<forall>j<k. op_error (?check j)) \<and> ?c = console_after k"
    by (rule exI [of _ 2])
  have "?check 2 = Returns" by simp
  then have 2: "\<exists>k. ?check k = Returns" by (rule exI [of _ 2])
  have all: "\<forall>c. Command_handle ?check = Some (Inr c) \<longleftrightarrow>
      (\<exists>k. ?check k = Returns \<and> (\<forall>j<k. op_error (?check j)) \<and> c = console_after k)"
    and fin: "(\<exists>k. ?check k = Returns) \<longrightarrow> Command_handle ?check \<noteq> None"
    using wait_for_db_returns [of ?check] by (rule conjunct1 [OF conjunct2 [OF conjunct2]],
      rule conjunct2 [OF conjunct2 [OF conjunct2]])
  from all have "Command_handle ?check = Some (Inr ?c) \<longleftrightarrow>
      (\<exists>k. ?check k = Returns \<and> (\<forall>j<k. op_error (?check j)) \<and> ?c = console_after k)"
    by (rule spec)
  with 1 have "Command_handle ?check = Some (Inr ?c)" by (rule iffD2 [rotated])
  moreover from fin 2 have "Command_handle ?check \<noteq> None" by (rule mp)
  ultimately show ?thesis by (rule conjI)
qed

end
